theory Spec2Isabelle
  imports Main "HOL-Library.Word"
begin

unbundle bit_operations_syntax

section \<open>Values and errors\<close>

text \<open>
  Python integers are unbounded, so every register value, address and byte is an \<open>int\<close>.
  Python's \<open>x << n\<close> is \<open>push_bit n x\<close>, \<open>x >> n\<close> is \<open>drop_bit n x\<close> (it rounds
  towards minus infinity, as Python does), \<open>&\<close> is \<open>AND\<close> and \<open>|\<close> is \<open>OR\<close>;
  \<open>bool(x)\<close> on an integer is \<open>x \<noteq> 0\<close>.

  Exceptions are values. \<open>ValueError\<close> is what an \<open>IntEnum\<close> constructor and the address
  setter raise, \<open>IndexError\<close> is what \<open>result[0]\<close> raises on an empty register list,
  \<open>TransportError\<close> stands for whatever the Modbus client raises, \<open>CancelledError\<close> is
  what a task receives when an enclosing \<open>asyncio.timeout\<close> expires, and \<open>TimeoutError\<close>
  is what the \<open>asyncio.timeout\<close> block turns that into when it is left.
\<close>

datatype error = TransportError | IndexError | ValueError | CancelledError | TimeoutError

section \<open>core.py\<close>

subsection \<open>ControlRegister\<close>

record ControlRegister =
  enable :: bool
  mode :: bool
  move_to_targret :: bool
  automatic_inspection :: bool
  automatic_patrol_inspection :: bool

text \<open>\<open>ControlRegister.to_u8\<close>: five guarded \<open>ret |= mask\<close> statements in sequence.\<close>

definition to_u8 :: "ControlRegister \<Rightarrow> int" where
  "to_u8 self =
     (let ret = 0;
          ret = (if enable self then ret OR 0x01 else ret);
          ret = (if mode self then ret OR 0x02 else ret);
          ret = (if move_to_targret self then ret OR 0x08 else ret);
          ret = (if automatic_inspection self then ret OR 0x10 else ret);
          ret = (if automatic_patrol_inspection self then ret OR 0x20 else ret)
      in ret)"

subsection \<open>The two status enumerations\<close>

datatype GSTA = RESET_OR_INSPECTION | ACTIVATING | RESERVED | ACTIVATED

datatype GOBJ = MOVING_TO_POSITION | INNER_SUPPORT | OUTER_CLIP | NO_OBJECT_DETECTED

text \<open>The integer value of each member, as the \<open>IntEnum\<close> classes assign them.\<close>

fun GSTA_value :: "GSTA \<Rightarrow> int" where
  "GSTA_value RESET_OR_INSPECTION = 0"
| "GSTA_value ACTIVATING = 1"
| "GSTA_value RESERVED = 2"
| "GSTA_value ACTIVATED = 3"

fun GOBJ_value :: "GOBJ \<Rightarrow> int" where
  "GOBJ_value MOVING_TO_POSITION = 0"
| "GOBJ_value INNER_SUPPORT = 1"
| "GOBJ_value OUTER_CLIP = 2"
| "GOBJ_value NO_OBJECT_DETECTED = 3"

text \<open>
  Calling an \<open>IntEnum\<close> class on an integer looks the member up by value and raises
  \<open>ValueError\<close> when no member has that value.
\<close>

definition GSTA_call :: "int \<Rightarrow> error + GSTA" where
  "GSTA_call v =
     (if v = 0 then Inr RESET_OR_INSPECTION
      else if v = 1 then Inr ACTIVATING
      else if v = 2 then Inr RESERVED
      else if v = 3 then Inr ACTIVATED
      else Inl ValueError)"

definition GOBJ_call :: "int \<Rightarrow> error + GOBJ" where
  "GOBJ_call v =
     (if v = 0 then Inr MOVING_TO_POSITION
      else if v = 1 then Inr INNER_SUPPORT
      else if v = 2 then Inr OUTER_CLIP
      else if v = 3 then Inr NO_OBJECT_DETECTED
      else Inl ValueError)"

subsection \<open>GripperStatus\<close>

record GripperStatus =
  gACT :: bool
  gDropSta :: bool
  gMODE :: bool
  gGTO :: bool
  gSTA :: GSTA
  gOBJ :: GOBJ

text \<open>
  \<open>GripperStatus.from_u8\<close>. The keyword arguments are evaluated in the order they are
  written, so a failing \<open>GSTA(...)\<close> is met before \<open>GOBJ(...)\<close>.
\<close>

definition GripperStatus_from_u8 :: "int \<Rightarrow> error + GripperStatus" where
  "GripperStatus_from_u8 v =
     (case GSTA_call (drop_bit 4 v AND 0b11) of
        Inl e \<Rightarrow> Inl e
      | Inr sta \<Rightarrow>
          (case GOBJ_call (drop_bit 6 v AND 0b11) of
             Inl e \<Rightarrow> Inl e
           | Inr obj \<Rightarrow>
               Inr \<lparr> gACT = (v AND push_bit 0 1 \<noteq> 0),
                     gDropSta = (v AND push_bit 1 1 \<noteq> 0),
                     gMODE = (v AND push_bit 2 1 \<noteq> 0),
                     gGTO = (v AND push_bit 3 1 \<noteq> 0),
                     gSTA = sta,
                     gOBJ = obj \<rparr>))"

subsection \<open>GripperFaultStatus and the plain value classes\<close>

record GripperFaultStatus =
  control_command_error :: bool
  communication_fault :: bool
  overcurrent_fault :: bool
  voltage_fault :: bool
  enabling_fault :: bool
  overtemperature_fault :: bool
  self_fault :: bool

definition GripperFaultStatus_from_u8 :: "int \<Rightarrow> GripperFaultStatus" where
  "GripperFaultStatus_from_u8 v =
     \<lparr> control_command_error = (v AND push_bit 0 1 \<noteq> 0),
       communication_fault = (v AND push_bit 1 1 \<noteq> 0),
       overcurrent_fault = (v AND push_bit 2 1 \<noteq> 0),
       voltage_fault = (v AND push_bit 3 1 \<noteq> 0),
       enabling_fault = (v AND push_bit 4 1 \<noteq> 0),
       overtemperature_fault = (v AND push_bit 5 1 \<noteq> 0),
       self_fault = (v AND push_bit 6 1 \<noteq> 0) \<rparr>"

record ExecuteControlMovement =
  force :: int
  speed :: int
  position :: int

record VoltageTemperature =
  voltage :: int
  temperature :: int

record SpeedForce =
  sf_speed :: int
  sf_force :: int

record FaultPosition =
  fault :: GripperFaultStatus
  fp_position :: int

section \<open>The Modbus client and the event loop\<close>

text \<open>
  Modelled from the spec: \<open>registers.py\<close> (the classes \<open>ControlRegisters\<close> and
  \<open>StatusRegisters\<close>) is not among the sources. The spec lists three writable control
  registers and five read-only status registers at pairwise distinct addresses and calls the
  numeric addresses opaque configuration, so each register is named by the attribute that
  \<open>__init__.py\<close> uses for it and no number is assumed.
\<close>

datatype ControlRegisters = CONTROL | POSITION | SPEED_FORCE

datatype StatusRegisters =
  STATUS | FAULT_POSITION_STATUS | SPEED_FORCE_STATUS | VOLTAGE_TEMPERATURE_STATUS | SOFTWARE_INFO

text \<open>
  The transport is a black box: what it answers is a script. The \<open>n\<close>-th read takes
  \<open>latency\<close> milliseconds of simulated time and answers with a list of register words, or
  fails (\<open>None\<close>); the \<open>n\<close>-th write takes \<open>write_latency\<close> milliseconds and is accepted
  or fails.
\<close>

record read_reply =
  latency :: nat
  registers :: "int list option"

record write_reply =
  write_latency :: nat
  accepted :: bool

text \<open>
  The client, together with the clock of the event loop it runs on (\<open>now\<close>, in
  milliseconds) and the deadline of the \<open>asyncio.timeout\<close> block the running task is
  inside, if any (\<open>timeout_at\<close>). Every request is logged in the order it is issued:
  \<open>reads\<close> holds (register, count, slave), \<open>writes\<close> holds (register, values, slave).
\<close>

record AsyncModbusSerialClient =
  now :: nat
  timeout_at :: "nat option"
  read_script :: "nat \<Rightarrow> read_reply"
  write_script :: "nat \<Rightarrow> write_reply"
  reads :: "(StatusRegisters \<times> nat \<times> int) list"
  writes :: "(ControlRegisters \<times> int list \<times> int) list"

text \<open>
  An \<open>await\<close> that needs \<open>d\<close> milliseconds. Outside a timeout block the clock advances
  by \<open>d\<close>. Inside one, the task is cancelled at the deadline when the awaited operation
  has not finished strictly before it; the clock then stands at the deadline.
\<close>

definition suspend :: "nat \<Rightarrow> AsyncModbusSerialClient \<Rightarrow> (error + unit) \<times> AsyncModbusSerialClient" where
  "suspend d c =
     (case timeout_at c of
        None \<Rightarrow> (Inr (), c\<lparr>now := now c + d\<rparr>)
      | Some dl \<Rightarrow>
          if dl \<le> now c + d then (Inl CancelledError, c\<lparr>now := max (now c) dl\<rparr>)
          else (Inr (), c\<lparr>now := now c + d\<rparr>))"

text \<open>
  \<open>client.read_input_registers(register, count=count, slave=slave)\<close> followed by
  \<open>.registers\<close>, and \<open>client.write_registers(register, values, slave=slave)\<close>.
\<close>

definition read_input_registers ::
  "StatusRegisters \<Rightarrow> nat \<Rightarrow> int \<Rightarrow> AsyncModbusSerialClient \<Rightarrow> (error + int list) \<times> AsyncModbusSerialClient" where
  "read_input_registers reg count slave c =
     (let reply = read_script c (length (reads c));
          c1 = c\<lparr>reads := reads c @ [(reg, count, slave)]\<rparr>
      in case suspend (latency reply) c1 of
           (Inl e, c2) \<Rightarrow> (Inl e, c2)
         | (Inr _, c2) \<Rightarrow>
             (case registers reply of
                None \<Rightarrow> (Inl TransportError, c2)
              | Some ws \<Rightarrow> (Inr ws, c2)))"

definition write_registers ::
  "ControlRegisters \<Rightarrow> int list \<Rightarrow> int \<Rightarrow> AsyncModbusSerialClient \<Rightarrow> (error + unit) \<times> AsyncModbusSerialClient" where
  "write_registers reg vals slave c =
     (let reply = write_script c (length (writes c));
          c1 = c\<lparr>writes := writes c @ [(reg, vals, slave)]\<rparr>
      in case suspend (write_latency reply) c1 of
           (Inl e, c2) \<Rightarrow> (Inl e, c2)
         | (Inr _, c2) \<Rightarrow>
             (if accepted reply then (Inr (), c2) else (Inl TransportError, c2)))"

section \<open>The class HomwingGripper\<close>

record HomwingGripper =
  client :: AsyncModbusSerialClient
  address :: int

text \<open>\<open>__init__\<close> stores both arguments as they are.\<close>

definition HomwingGripper_init :: "AsyncModbusSerialClient \<Rightarrow> int \<Rightarrow> HomwingGripper" where
  "HomwingGripper_init cl addr = \<lparr> client = cl, address = addr \<rparr>"

text \<open>The setter of the property \<open>address\<close>.\<close>

definition address_setter :: "HomwingGripper \<Rightarrow> int \<Rightarrow> error + HomwingGripper" where
  "address_setter self v =
     (if v > 247 then Inl ValueError else Inr (self\<lparr>address := v\<rparr>))"

text \<open>Running a client operation on \<open>self._client\<close>, and \<open>asyncio.sleep\<close>.\<close>

definition on_client ::
  "(AsyncModbusSerialClient \<Rightarrow> 'r \<times> AsyncModbusSerialClient) \<Rightarrow> HomwingGripper \<Rightarrow> 'r \<times> HomwingGripper" where
  "on_client f self = (case f (client self) of (r, c) \<Rightarrow> (r, self\<lparr>client := c\<rparr>))"

definition asyncio_sleep :: "nat \<Rightarrow> HomwingGripper \<Rightarrow> (error + unit) \<times> HomwingGripper" where
  "asyncio_sleep ms self = on_client (suspend ms) self"

subsection \<open>Reads\<close>

text \<open>
  The methods whose names start with an underscore in the source carry the prefix
  \<open>priv_\<close> here.
\<close>

definition priv_read_gripper_status :: "HomwingGripper \<Rightarrow> (error + int list) \<times> HomwingGripper" where
  "priv_read_gripper_status self = on_client (read_input_registers STATUS 2 (address self)) self"

definition read_gripper_status :: "HomwingGripper \<Rightarrow> (error + GripperStatus) \<times> HomwingGripper" where
  "read_gripper_status self =
     (case priv_read_gripper_status self of
        (Inl e, s) \<Rightarrow> (Inl e, s)
      | (Inr result, s) \<Rightarrow>
          (case result of
             [] \<Rightarrow> (Inl IndexError, s)
           | r0 # _ \<Rightarrow> (GripperStatus_from_u8 (r0 AND 0xFF), s)))"

definition priv_read_fault_position :: "HomwingGripper \<Rightarrow> (error + int list) \<times> HomwingGripper" where
  "priv_read_fault_position self =
     on_client (read_input_registers FAULT_POSITION_STATUS 1 (address self)) self"

definition read_fault_position :: "HomwingGripper \<Rightarrow> (error + FaultPosition) \<times> HomwingGripper" where
  "read_fault_position self =
     (case priv_read_fault_position self of
        (Inl e, s) \<Rightarrow> (Inl e, s)
      | (Inr result, s) \<Rightarrow>
          (case result of
             [] \<Rightarrow> (Inl IndexError, s)
           | r0 # _ \<Rightarrow>
               (Inr \<lparr> fault = GripperFaultStatus_from_u8 (r0 AND 0xFF),
                      fp_position = drop_bit 8 r0 AND 0xFF \<rparr>, s)))"

definition priv_read_speed_force :: "HomwingGripper \<Rightarrow> (error + int list) \<times> HomwingGripper" where
  "priv_read_speed_force self =
     on_client (read_input_registers SPEED_FORCE_STATUS 1 (address self)) self"

definition read_speed_force :: "HomwingGripper \<Rightarrow> (error + SpeedForce) \<times> HomwingGripper" where
  "read_speed_force self =
     (case priv_read_speed_force self of
        (Inl e, s) \<Rightarrow> (Inl e, s)
      | (Inr result, s) \<Rightarrow>
          (case result of
             [] \<Rightarrow> (Inl IndexError, s)
           | r0 # _ \<Rightarrow>
               (Inr \<lparr> sf_speed = r0 AND 0xFF, sf_force = drop_bit 8 r0 AND 0xFF \<rparr>, s)))"

definition priv_read_voltage_temperature :: "HomwingGripper \<Rightarrow> (error + int list) \<times> HomwingGripper" where
  "priv_read_voltage_temperature self =
     on_client (read_input_registers VOLTAGE_TEMPERATURE_STATUS 1 (address self)) self"

definition read_voltage_temperature :: "HomwingGripper \<Rightarrow> (error + VoltageTemperature) \<times> HomwingGripper" where
  "read_voltage_temperature self =
     (case priv_read_voltage_temperature self of
        (Inl e, s) \<Rightarrow> (Inl e, s)
      | (Inr result, s) \<Rightarrow>
          (case result of
             [] \<Rightarrow> (Inl IndexError, s)
           | r0 # _ \<Rightarrow>
               (Inr \<lparr> voltage = r0 AND 0xFF, temperature = drop_bit 8 r0 AND 0xFF \<rparr>, s)))"

definition read_software_version :: "HomwingGripper \<Rightarrow> (error + int list) \<times> HomwingGripper" where
  "read_software_version self = on_client (read_input_registers SOFTWARE_INFO 1 (address self)) self"

subsection \<open>Writes\<close>

definition write_control_register :: "HomwingGripper \<Rightarrow> ControlRegister \<Rightarrow> (error + unit) \<times> HomwingGripper" where
  "write_control_register self control =
     on_client (write_registers CONTROL [to_u8 control] (address self)) self"

definition clear_control_register :: "HomwingGripper \<Rightarrow> (error + unit) \<times> HomwingGripper" where
  "clear_control_register self =
     write_control_register self
       \<lparr> enable = False, mode = False, move_to_targret = False,
         automatic_inspection = False, automatic_patrol_inspection = False \<rparr>"

definition activate :: "HomwingGripper \<Rightarrow> (error + unit) \<times> HomwingGripper" where
  "activate self =
     write_control_register self
       \<lparr> enable = True, mode = False, move_to_targret = False,
         automatic_inspection = False, automatic_patrol_inspection = False \<rparr>"

definition stop :: "HomwingGripper \<Rightarrow> (error + unit) \<times> HomwingGripper" where
  "stop self =
     write_control_register self
       \<lparr> enable = True, mode = False, move_to_targret = False,
         automatic_inspection = False, automatic_patrol_inspection = False \<rparr>"

definition execute_move :: "HomwingGripper \<Rightarrow> (error + unit) \<times> HomwingGripper" where
  "execute_move self =
     write_control_register self
       \<lparr> enable = True, mode = False, move_to_targret = True,
         automatic_inspection = False, automatic_patrol_inspection = False \<rparr>"

definition priv_set_target_position :: "HomwingGripper \<Rightarrow> int \<Rightarrow> (error + unit) \<times> HomwingGripper" where
  "priv_set_target_position self pos =
     on_client (write_registers POSITION [push_bit 8 pos] (address self)) self"

definition set_target_position :: "HomwingGripper \<Rightarrow> int \<Rightarrow> (error + unit) \<times> HomwingGripper" where
  "set_target_position self pos = priv_set_target_position self pos"

definition move_to_position :: "HomwingGripper \<Rightarrow> int \<Rightarrow> (error + unit) \<times> HomwingGripper" where
  "move_to_position self pos =
     (case priv_set_target_position self pos of
        (Inl e, s) \<Rightarrow> (Inl e, s)
      | (Inr _, s) \<Rightarrow> execute_move s)"

definition priv_set_speed_force :: "HomwingGripper \<Rightarrow> int \<Rightarrow> int \<Rightarrow> (error + unit) \<times> HomwingGripper" where
  "priv_set_speed_force self spd frc =
     on_client (write_registers SPEED_FORCE [spd + push_bit 8 frc] (address self)) self"

definition set_speed_force :: "HomwingGripper \<Rightarrow> int \<Rightarrow> int \<Rightarrow> (error + unit) \<times> HomwingGripper" where
  "set_speed_force self spd frc = priv_set_speed_force self spd frc"

definition execute_control_movement ::
  "HomwingGripper \<Rightarrow> ExecuteControlMovement \<Rightarrow> (error + unit) \<times> HomwingGripper" where
  "execute_control_movement self movement =
     (case set_speed_force self (speed movement) (force movement) of
        (Inl e, s) \<Rightarrow> (Inl e, s)
      | (Inr _, s) \<Rightarrow>
          (case move_to_position s (position movement) of
             (Inl e, s') \<Rightarrow> (Inl e, s')
           | (Inr _, s') \<Rightarrow> execute_move s'))"

subsection \<open>The two polling loops\<close>

text \<open>
  Both loops are \<open>while True\<close>: nothing in their text bounds the number of rounds, so
  each is a partial function and \<open>None\<close> is the loop that never ends. A raised exception
  ends the loop with \<open>Inl\<close>; \<open>break\<close> ends it with \<open>Inr ()\<close>.
\<close>

partial_function (option) wait_for_move ::
  "HomwingGripper \<Rightarrow> ((error + unit) \<times> HomwingGripper) option" where
  "wait_for_move self =
     (case read_gripper_status self of
        (Inl e, s) \<Rightarrow> Some (Inl e, s)
      | (Inr result, s) \<Rightarrow>
          if gOBJ result \<noteq> MOVING_TO_POSITION then Some (Inr (), s)
          else (case asyncio_sleep 100 s of
                  (Inl e, s') \<Rightarrow> Some (Inl e, s')
                | (Inr _, s') \<Rightarrow> wait_for_move s'))"

text \<open>The body of the \<open>async with\<close> block of \<open>wait_for_activation\<close>.\<close>

partial_function (option) activation_loop ::
  "HomwingGripper \<Rightarrow> ((error + unit) \<times> HomwingGripper) option" where
  "activation_loop self =
     (case read_gripper_status self of
        (Inl e, s) \<Rightarrow> Some (Inl e, s)
      | (Inr result, s) \<Rightarrow>
          if gSTA result = ACTIVATED then Some (Inr (), s)
          else (case asyncio_sleep 100 s of
                  (Inl e, s') \<Rightarrow> Some (Inl e, s')
                | (Inr _, s') \<Rightarrow> activation_loop s'))"

text \<open>
  \<open>async with asyncio.timeout(5)\<close>: on entry the deadline is five seconds from now (an
  enclosing block with an earlier deadline still cancels first); on exit the enclosing
  deadline is in force again, and a cancellation that arrived when this block's own
  deadline had been reached leaves the block as \<open>TimeoutError\<close>.
\<close>

definition wait_for_activation :: "HomwingGripper \<Rightarrow> ((error + unit) \<times> HomwingGripper) option" where
  "wait_for_activation self =
     (let outer = timeout_at (client self);
          deadline = now (client self) + 5000;
          effective = (case outer of None \<Rightarrow> deadline | Some d \<Rightarrow> min d deadline)
      in case activation_loop (self\<lparr>client := (client self)\<lparr>timeout_at := Some effective\<rparr>\<rparr>) of
           None \<Rightarrow> None
         | Some (r, s) \<Rightarrow>
             Some (if r = Inl CancelledError \<and> deadline \<le> now (client s) then Inl TimeoutError else r,
                   s\<lparr>client := (client s)\<lparr>timeout_at := outer\<rparr>\<rparr>))"

section \<open>Stub transports and the vocabulary of the properties\<close>

text \<open>
  What \<open>read_gripper_status\<close> makes of a reply that arrives: the status decoded from the
  low byte of the first word, when there is one.
\<close>

definition reported_status :: "read_reply \<Rightarrow> GripperStatus option" where
  "reported_status r =
     (case registers r of
        None \<Rightarrow> None
      | Some [] \<Rightarrow> None
      | Some (w # _) \<Rightarrow>
          (case GripperStatus_from_u8 (w AND 0xFF) of Inl _ \<Rightarrow> None | Inr st \<Rightarrow> Some st))"

text \<open>
  A fresh client on a stubbed transport: the clock at 0, no enclosing timeout, nothing
  logged, every write accepted at once, and reads answered by the given script.
\<close>

definition stub_client :: "(nat \<Rightarrow> read_reply) \<Rightarrow> AsyncModbusSerialClient" where
  "stub_client script =
     \<lparr> now = 0, timeout_at = None, read_script = script,
       write_script = (\<lambda>_. \<lparr> write_latency = 0, accepted = True \<rparr>),
       reads = [], writes = [] \<rparr>"

text \<open>
  Status words: \<open>0x10\<close> is ACTIVATING, \<open>0x30\<close> is ACTIVATED and still moving to the
  position, \<open>0x70\<close> is ACTIVATED with an inner support detected. Each stub answers at once.
\<close>

definition activating_twice :: "nat \<Rightarrow> read_reply" where
  "activating_twice n = \<lparr> latency = 0, registers = Some [if n < 2 then 0x10 else 0x30, 0] \<rparr>"

definition never_activated :: "nat \<Rightarrow> read_reply" where
  "never_activated n = \<lparr> latency = 0, registers = Some [0x10, 0] \<rparr>"

text \<open>
  Two devices that are activated too late: one answers at once and reports ACTIVATING for
  the first seventy reads and ACTIVATED from then on, the other reports ACTIVATED but takes
  six seconds for every answer.
\<close>

definition late_activating :: "nat \<Rightarrow> read_reply" where
  "late_activating n = \<lparr> latency = 0, registers = Some [if n < 70 then 0x10 else 0x30, 0] \<rparr>"

definition slow_device :: "nat \<Rightarrow> read_reply" where
  "slow_device n = \<lparr> latency = 6000, registers = Some [0x30, 0] \<rparr>"

definition always_moving :: "nat \<Rightarrow> read_reply" where
  "always_moving n = \<lparr> latency = 0, registers = Some [0x30, 0] \<rparr>"

definition moving_twice :: "nat \<Rightarrow> read_reply" where
  "moving_twice n = \<lparr> latency = 0, registers = Some [if n < 2 then 0x30 else 0x70, 0] \<rparr>"

definition fault_word :: "int \<Rightarrow> nat \<Rightarrow> read_reply" where
  "fault_word w n = \<lparr> latency = 0, registers = Some [w] \<rparr>"

text \<open>
  The replies still to come, counted from the next read: the status the \<open>i\<close>-th of them
  reports and the time it takes. \<open>after_read\<close> is the session once the next read has
  returned, \<open>after_poll\<close> the session once the 100 ms sleep that follows it has passed.
  \<open>keeps_moving\<close> says that no timeout encloses the call and every reply to come reports
  a gripper still moving to its position.
\<close>

definition next_status :: "HomwingGripper \<Rightarrow> nat \<Rightarrow> GripperStatus option" where
  "next_status self i =
     reported_status (read_script (client self) (length (reads (client self)) + i))"

definition next_latency :: "HomwingGripper \<Rightarrow> nat \<Rightarrow> nat" where
  "next_latency self i = latency (read_script (client self) (length (reads (client self)) + i))"

definition after_read :: "HomwingGripper \<Rightarrow> HomwingGripper" where
  "after_read self =
     self\<lparr>client := (client self)
       \<lparr>reads := reads (client self) @ [(STATUS, 2, address self)],
        now := now (client self) + next_latency self 0\<rparr>\<rparr>"

definition after_poll :: "HomwingGripper \<Rightarrow> HomwingGripper" where
  "after_poll self =
     self\<lparr>client := (client self)
       \<lparr>reads := reads (client self) @ [(STATUS, 2, address self)],
        now := now (client self) + next_latency self 0 + 100\<rparr>\<rparr>"

definition keeps_moving :: "HomwingGripper \<Rightarrow> bool" where
  "keeps_moving self \<longleftrightarrow>
     timeout_at (client self) = None \<and>
     (\<forall>i. \<exists>st. next_status self i = Some st \<and> gOBJ st = MOVING_TO_POSITION)"

text \<open>
  The session as \<open>wait_for_activation\<close> enters its timeout block when no other timeout
  encloses the call: the deadline is five seconds from now.
\<close>

definition under_deadline :: "HomwingGripper \<Rightarrow> HomwingGripper" where
  "under_deadline self =
     self\<lparr>client := (client self)\<lparr>timeout_at := Some (now (client self) + 5000)\<rparr>\<rparr>"

section \<open>Bit-level facts\<close>

lemma and_3_take_bit: "(x::int) AND 3 = take_bit 2 x"
  by (simp add: take_bit_eq_mask mask_eq_exp_minus_1)

lemma and_255_take_bit: "(x::int) AND 255 = take_bit 8 x"
  by (simp add: take_bit_eq_mask mask_eq_exp_minus_1)

lemma low_byte_field:
  "drop_bit 4 ((w::int) AND 0xFF) AND 3 = drop_bit 4 w AND 3"
  "drop_bit 6 ((w::int) AND 0xFF) AND 3 = drop_bit 6 w AND 3"
  by (simp_all add: and_3_take_bit and_255_take_bit drop_bit_take_bit)

lemma low_byte_bits:
  "bit ((w::int) AND 0xFF) 0 = bit w 0" "bit (w AND 0xFF) 1 = bit w 1"
  "bit (w AND 0xFF) 2 = bit w 2" "bit (w AND 0xFF) 3 = bit w 3"
  "bit (w AND 0xFF) 4 = bit w 4" "bit (w AND 0xFF) 5 = bit w 5"
  "bit (w AND 0xFF) 6 = bit w 6"
  unfolding and_255_take_bit by (simp_all add: bit_take_bit_iff)

lemma bit_test: "((v::int) AND push_bit n 1 \<noteq> 0) = bit v n"
  by (simp add: bit_iff_and_push_bit_not_eq_0)

lemma two_bits_cases: "(x::int) AND 3 = 0 \<or> x AND 3 = 1 \<or> x AND 3 = 2 \<or> x AND 3 = 3"
proof -
  have "0 \<le> x mod 4" "x mod 4 < 4" by simp_all
  then have "x mod 4 = 0 \<or> x mod 4 = 1 \<or> x mod 4 = 2 \<or> x mod 4 = 3" by arith
  then show ?thesis unfolding and_3_take_bit take_bit_eq_mod by simp
qed

lemma GSTA_call_total: "\<exists>s. GSTA_call (x AND 3) = Inr s \<and> GSTA_value s = x AND 3"
  using two_bits_cases [of x] by (auto simp: GSTA_call_def)

lemma GOBJ_call_total: "\<exists>s. GOBJ_call (x AND 3) = Inr s \<and> GOBJ_value s = x AND 3"
  using two_bits_cases [of x] by (auto simp: GOBJ_call_def)

lemma from_u8_bits:
  "GripperStatus_from_u8 v =
     (case GSTA_call (drop_bit 4 v AND 3) of
        Inl e \<Rightarrow> Inl e
      | Inr sta \<Rightarrow>
          (case GOBJ_call (drop_bit 6 v AND 3) of
             Inl e \<Rightarrow> Inl e
           | Inr obj \<Rightarrow>
               Inr \<lparr> gACT = bit v 0, gDropSta = bit v 1, gMODE = bit v 2, gGTO = bit v 3,
                     gSTA = sta, gOBJ = obj \<rparr>))"
  unfolding GripperStatus_from_u8_def bit_test by simp

lemma from_u8_total:
  "\<exists>s. GripperStatus_from_u8 w = Inr s
     \<and> gACT s = bit w 0 \<and> gDropSta s = bit w 1 \<and> gMODE s = bit w 2 \<and> gGTO s = bit w 3
     \<and> GSTA_value (gSTA s) = drop_bit 4 w AND 0b11
     \<and> GOBJ_value (gOBJ s) = drop_bit 6 w AND 0b11"
proof -
  obtain sta where sta:
    "GSTA_call (drop_bit 4 w AND 3) = Inr sta" "GSTA_value sta = drop_bit 4 w AND 3"
    using GSTA_call_total by blast
  obtain obj where obj:
    "GOBJ_call (drop_bit 6 w AND 3) = Inr obj" "GOBJ_value obj = drop_bit 6 w AND 3"
    using GOBJ_call_total by blast
  show ?thesis
    by (simp add: from_u8_bits sta obj)
qed

lemma from_u8_low_byte: "GripperStatus_from_u8 (w AND 0xFF) = GripperStatus_from_u8 w"
  by (simp only: from_u8_bits low_byte_field low_byte_bits)

lemma fault_bits:
  "GripperFaultStatus_from_u8 v =
     \<lparr> control_command_error = bit v 0, communication_fault = bit v 1,
       overcurrent_fault = bit v 2, voltage_fault = bit v 3, enabling_fault = bit v 4,
       overtemperature_fault = bit v 5, self_fault = bit v 6 \<rparr>"
  unfolding GripperFaultStatus_from_u8_def bit_test by simp

lemma fault_low_byte:
  "GripperFaultStatus_from_u8 (w AND 0xFF) =
     \<lparr> control_command_error = bit w 0, communication_fault = bit w 1,
       overcurrent_fault = bit w 2, voltage_fault = bit w 3, enabling_fault = bit w 4,
       overtemperature_fault = bit w 5, self_fault = bit w 6 \<rparr>"
  by (simp only: fault_bits low_byte_bits)

lemma to_u8_or:
  "to_u8 c = (if enable c then 0x01 else 0) OR (if mode c then 0x02 else 0) OR
             (if move_to_targret c then 0x08 else 0) OR
             (if automatic_inspection c then 0x10 else 0) OR
             (if automatic_patrol_inspection c then 0x20 else 0)"
  by (simp add: to_u8_def Let_def)

lemma to_u8_bit0: "bit (to_u8 c) 0 = enable c"
  by (simp add: to_u8_def Let_def bit_or_iff)

lemma to_u8_bit1: "bit (to_u8 c) 1 = mode c"
  by (simp add: to_u8_def Let_def bit_or_iff bit_numeral_simps)

lemma to_u8_bit2: "\<not> bit (to_u8 c) 2"
  by (simp add: to_u8_def Let_def bit_or_iff bit_numeral_simps)

lemma to_u8_bit3: "bit (to_u8 c) 3 = move_to_targret c"
  by (simp add: to_u8_def Let_def bit_or_iff bit_numeral_simps)

lemma to_u8_bit4: "bit (to_u8 c) 4 = automatic_inspection c"
  by (simp add: to_u8_def Let_def bit_or_iff bit_numeral_simps)

lemma to_u8_bit5: "bit (to_u8 c) 5 = automatic_patrol_inspection c"
  by (simp add: to_u8_def Let_def bit_or_iff bit_numeral_simps)

lemma to_u8_high: "drop_bit 6 (to_u8 c) = 0"
  by (simp add: to_u8_def Let_def drop_bit_eq_div)

lemma to_u8_enable_only:
  "to_u8 \<lparr> enable = True, mode = False, move_to_targret = False,
           automatic_inspection = False, automatic_patrol_inspection = False \<rparr> = 0x01"
  by (simp add: to_u8_def)

lemma to_u8_enable_move:
  "to_u8 \<lparr> enable = True, mode = False, move_to_targret = True,
           automatic_inspection = False, automatic_patrol_inspection = False \<rparr> = 0x09"
  by (simp add: to_u8_def)

section \<open>Facts about the client\<close>

lemma suspend_fields [simp]:
  "timeout_at (snd (suspend d c)) = timeout_at c"
  "read_script (snd (suspend d c)) = read_script c"
  "write_script (snd (suspend d c)) = write_script c"
  "reads (snd (suspend d c)) = reads c"
  "writes (snd (suspend d c)) = writes c"
  by (simp_all add: suspend_def split: option.split)

lemma suspend_not_timeout: "fst (suspend d c) \<noteq> Inl TimeoutError"
  by (simp add: suspend_def split: option.split)

lemma write_registers_writes:
  "writes (snd (write_registers reg vals slave c)) = writes c @ [(reg, vals, slave)]"
proof -
  let ?c1 = "c\<lparr>writes := writes c @ [(reg, vals, slave)]\<rparr>"
  let ?d = "write_latency (write_script c (length (writes c)))"
  have "writes (snd (suspend ?d ?c1)) = writes c @ [(reg, vals, slave)]"
    by simp
  then show ?thesis
    by (cases "suspend ?d ?c1")
       (auto simp add: write_registers_def Let_def split: sum.split)
qed

lemma write_registers_fields:
  "timeout_at (snd (write_registers reg vals slave c)) = timeout_at c"
  "write_script (snd (write_registers reg vals slave c)) = write_script c"
proof -
  let ?c1 = "c\<lparr>writes := writes c @ [(reg, vals, slave)]\<rparr>"
  let ?d = "write_latency (write_script c (length (writes c)))"
  have "timeout_at (snd (suspend ?d ?c1)) = timeout_at c"
    "write_script (snd (suspend ?d ?c1)) = write_script c"
    by simp_all
  then show "timeout_at (snd (write_registers reg vals slave c)) = timeout_at c"
    "write_script (snd (write_registers reg vals slave c)) = write_script c"
    by (cases "suspend ?d ?c1"; auto simp add: write_registers_def Let_def split: sum.split)+
qed

lemma write_registers_ok:
  assumes "timeout_at c = None" "accepted (write_script c (length (writes c)))"
  shows "fst (write_registers reg vals slave c) = Inr ()"
  using assms by (simp add: write_registers_def Let_def suspend_def)

lemma write_registers_not_timeout: "fst (write_registers reg vals slave c) \<noteq> Inl TimeoutError"
proof -
  let ?c1 = "c\<lparr>writes := writes c @ [(reg, vals, slave)]\<rparr>"
  let ?d = "write_latency (write_script c (length (writes c)))"
  have "fst (suspend ?d ?c1) \<noteq> Inl TimeoutError" by (rule suspend_not_timeout)
  then show ?thesis
    by (cases "suspend ?d ?c1") (auto simp add: write_registers_def Let_def split: sum.split)
qed

lemma on_client_simps [simp]:
  "fst (on_client f self) = fst (f (client self))"
  "client (snd (on_client f self)) = snd (f (client self))"
  "address (snd (on_client f self)) = address self"
  by (simp_all add: on_client_def split: prod.split)

section \<open>The properties\<close>

text \<open>
  C1. For every control register value (five independent booleans) \<open>to_u8\<close> is the OR of
  fixed masks: \<open>enable\<close> is bit 0, \<open>mode\<close> bit 1, \<open>move_to_targret\<close> bit 3,
  \<open>automatic_inspection\<close> bit 4, \<open>automatic_patrol_inspection\<close> bit 5; bit 2 is never
  set and neither is any bit above bit 5. The command with only \<open>enable\<close> and
  \<open>move_to_targret\<close> encodes to \<open>0x09\<close>.
\<close>

theorem to_u8_bit_layout:
  "to_u8 c = (if enable c then 0x01 else 0) OR (if mode c then 0x02 else 0) OR
             (if move_to_targret c then 0x08 else 0) OR
             (if automatic_inspection c then 0x10 else 0) OR
             (if automatic_patrol_inspection c then 0x20 else 0)
   \<and> bit (to_u8 c) 0 = enable c
   \<and> bit (to_u8 c) 1 = mode c
   \<and> \<not> bit (to_u8 c) 2
   \<and> bit (to_u8 c) 3 = move_to_targret c
   \<and> bit (to_u8 c) 4 = automatic_inspection c
   \<and> bit (to_u8 c) 5 = automatic_patrol_inspection c
   \<and> drop_bit 6 (to_u8 c) = 0
   \<and> to_u8 \<lparr> enable = True, mode = False, move_to_targret = True,
             automatic_inspection = False, automatic_patrol_inspection = False \<rparr> = 0x09"
  using to_u8_or [of c] to_u8_bit0 [of c] to_u8_bit1 [of c] to_u8_bit2 [of c] to_u8_bit3 [of c]
    to_u8_bit4 [of c] to_u8_bit5 [of c] to_u8_high [of c] to_u8_enable_move
  by blast

text \<open>
  C2. \<open>GripperStatus.from_u8\<close> succeeds on every integer, so in particular on every word
  in 0..65535: \<open>gACT\<close> is bit 0, \<open>gDropSta\<close> bit 1, \<open>gMODE\<close> bit 2, \<open>gGTO\<close> bit 3,
  the value of \<open>gSTA\<close> is \<open>(word >> 4) & 0b11\<close> and the value of \<open>gOBJ\<close> is
  \<open>(word >> 6) & 0b11\<close>. Masking the word with \<open>0xFF\<close> first, as \<open>read_gripper_status\<close>
  does, gives the same status.
\<close>

theorem from_u8_total_and_bit_exact:
  "\<exists>s. GripperStatus_from_u8 w = Inr s
     \<and> gACT s = bit w 0 \<and> gDropSta s = bit w 1 \<and> gMODE s = bit w 2 \<and> gGTO s = bit w 3
     \<and> GSTA_value (gSTA s) = drop_bit 4 w AND 0b11
     \<and> GOBJ_value (gOBJ s) = drop_bit 6 w AND 0b11
     \<and> GripperStatus_from_u8 (w AND 0xFF) = Inr s"
  using from_u8_total [of w] from_u8_low_byte [of w] by auto

text \<open>
  C9. \<open>stop\<close> and \<open>activate\<close> are the same operation: each issues one write of the
  control byte \<open>0x01\<close> (enable set, every other flag clear) to the CONTROL register, and
  they agree on the result and on the state they leave.
\<close>

theorem stop_same_as_activate:
  "stop self = activate self
   \<and> writes (client (snd (stop self))) = writes (client self) @ [(CONTROL, [0x01], address self)]
   \<and> writes (client (snd (activate self))) = writes (client self) @ [(CONTROL, [0x01], address self)]"
  by (simp add: stop_def activate_def write_control_register_def write_registers_writes
      to_u8_enable_only)

text \<open>
  C10. Address validation is one-sided and in the setter only: the constructor stores any
  integer, and the setter raises exactly when the value is greater than 247, so every
  negative value is stored.
\<close>

theorem address_validation_one_sided:
  "address (HomwingGripper_init cl a) = a
   \<and> (address_setter self v = Inl ValueError) = (247 < v)
   \<and> (v < 0 \<longrightarrow> address_setter self v = Inr (self\<lparr>address := v\<rparr>))"
  by (simp add: HomwingGripper_init_def address_setter_def)

theorem address_validation_one_sided_witness:
  "address (HomwingGripper_init (stub_client always_moving) 248) = 248
   \<and> address (HomwingGripper_init (stub_client always_moving) (- 5)) = - 5
   \<and> address_setter (HomwingGripper_init (stub_client always_moving) 9) 248 = Inl ValueError
   \<and> address_setter (HomwingGripper_init (stub_client always_moving) 9) 247
       = Inr ((HomwingGripper_init (stub_client always_moving) 9)\<lparr>address := 247\<rparr>)
   \<and> (- 5 :: int) < 0
   \<and> address_setter (HomwingGripper_init (stub_client always_moving) 9) (- 5)
       = Inr ((HomwingGripper_init (stub_client always_moving) 9)\<lparr>address := - 5\<rparr>)"
  using address_validation_one_sided [of "stub_client always_moving" 248]
    address_validation_one_sided [of "stub_client always_moving" "- 5"]
    address_validation_one_sided [of _ _ "HomwingGripper_init (stub_client always_moving) 9" 248]
    address_validation_one_sided [of _ _ "HomwingGripper_init (stub_client always_moving) 9" "- 5"]
  by (simp add: address_setter_def)

text \<open>
  Facts used for the writes: in a byte plus a value shifted left by eight bits no two bits
  meet, and a shifted value survives truncation to 16 bits exactly when the value shifted was
  a byte.
\<close>

lemma low_byte_plus_shift:
  assumes "0 \<le> spd" "spd \<le> 255"
  shows "spd + push_bit 8 frc = spd OR push_bit 8 (frc::int)"
proof (rule disjunctive_add_eq_or)
  have spd: "spd = take_bit 8 spd"
    using assms by (simp add: take_bit_int_eq_self)
  have "take_bit 8 spd AND push_bit 8 frc = 0"
    by (rule bit_eqI) (auto simp add: bit_and_iff bit_take_bit_iff bit_push_bit_iff)
  with spd show "spd AND push_bit 8 frc = 0" by simp
qed

lemma truncation_iff: "(push_bit 8 (p::int) AND 0xFFFF = push_bit 8 p) = (0 \<le> p \<and> p \<le> 255)"
proof -
  have m: "push_bit 8 p AND 0xFFFF = take_bit 16 (push_bit 8 p)"
    by (simp add: take_bit_eq_mask mask_eq_exp_minus_1)
  have "(take_bit 16 (push_bit 8 p) = push_bit 8 p) = (0 \<le> push_bit 8 p \<and> push_bit 8 p < 2 ^ 16)"
    by (rule take_bit_int_eq_self_iff)
  also have "\<dots> = (0 \<le> p \<and> p \<le> 255)"
    by (auto simp add: push_bit_eq_mult)
  finally show ?thesis unfolding m .
qed

text \<open>Every write operation of the session is one logged request.\<close>

lemma write_step:
  assumes "on_client (write_registers reg vals (address self)) self = (r, g)"
  shows "writes (client g) = writes (client self) @ [(reg, vals, address self)]"
    and "address g = address self"
    and "timeout_at (client g) = timeout_at (client self)"
    and "write_script (client g) = write_script (client self)"
    and "r \<noteq> Inl TimeoutError"
    and "timeout_at (client self) = None \<Longrightarrow>
         accepted (write_script (client self) (length (writes (client self)))) \<Longrightarrow> r = Inr ()"
proof -
  have g: "g = snd (on_client (write_registers reg vals (address self)) self)"
    and r: "r = fst (on_client (write_registers reg vals (address self)) self)"
    using assms by simp_all
  show "writes (client g) = writes (client self) @ [(reg, vals, address self)]"
    unfolding g by (simp add: write_registers_writes)
  show "address g = address self" unfolding g by simp
  show "timeout_at (client g) = timeout_at (client self)"
    unfolding g by (simp add: write_registers_fields)
  show "write_script (client g) = write_script (client self)"
    unfolding g by (simp add: write_registers_fields)
  show "r \<noteq> Inl TimeoutError" unfolding r by (simp add: write_registers_not_timeout)
  show "timeout_at (client self) = None \<Longrightarrow>
         accepted (write_script (client self) (length (writes (client self)))) \<Longrightarrow> r = Inr ()"
    unfolding r by (simp add: write_registers_ok)
qed

lemmas set_speed_force_step =
  write_step [of SPEED_FORCE "[spd + push_bit 8 frc]" self r g,
    folded priv_set_speed_force_def set_speed_force_def] for spd frc self r g

lemmas set_target_position_step =
  write_step [of POSITION "[push_bit 8 pos]" self r g,
    folded priv_set_target_position_def] for pos self r g

lemma execute_move_step:
  assumes "execute_move self = (r, g)"
  shows "writes (client g) = writes (client self) @ [(CONTROL, [0x09], address self)]"
    and "address g = address self"
    and "timeout_at (client g) = timeout_at (client self)"
    and "write_script (client g) = write_script (client self)"
    and "r \<noteq> Inl TimeoutError"
    and "timeout_at (client self) = None \<Longrightarrow>
         accepted (write_script (client self) (length (writes (client self)))) \<Longrightarrow> r = Inr ()"
  using assms write_step [of CONTROL "[0x09]" self r g]
  by (simp_all add: execute_move_def write_control_register_def to_u8_enable_move)


lemma execute_control_movement_trace:
  fixes self :: HomwingGripper and m :: ExecuteControlMovement
  defines "W \<equiv> writes (client self)"
    and "L1 \<equiv> (SPEED_FORCE, [speed m + push_bit 8 (force m)], address self)"
    and "L2 \<equiv> (POSITION, [push_bit 8 (position m)], address self)"
    and "L3 \<equiv> (CONTROL, [0x09 :: int], address self)"
    and "ok \<equiv> \<lambda>i. timeout_at (client self) = None
                  \<and> accepted (write_script (client self) (length (writes (client self)) + i))"
  assumes run: "execute_control_movement self m = (r, g)"
  shows "(r \<noteq> Inr () \<and> \<not> ok 0 \<and> writes (client g) = W @ [L1])
       \<or> (r \<noteq> Inr () \<and> \<not> ok 1 \<and> writes (client g) = W @ [L1, L2])
       \<or> (r \<noteq> Inr () \<and> \<not> ok 2 \<and> writes (client g) = W @ [L1, L2, L3])
       \<or> (r \<noteq> Inr () \<and> \<not> ok 3 \<and> writes (client g) = W @ [L1, L2, L3, L3])
       \<or> (r = Inr () \<and> writes (client g) = W @ [L1, L2, L3, L3])"
proof -
  obtain r1 g1 where e1: "set_speed_force self (speed m) (force m) = (r1, g1)"
    by (cases "set_speed_force self (speed m) (force m)")
  note s1 = set_speed_force_step [OF e1]
  have w1: "writes (client g1) = W @ [L1]" using s1(1) by (simp add: W_def L1_def)
  show ?thesis
  proof (cases r1)
    case (Inl e)
    then have "r = Inl e" "g = g1"
      using run e1 by (simp_all add: execute_control_movement_def)
    moreover have "\<not> ok 0" using s1(6) Inl by (auto simp add: ok_def)
    ultimately show ?thesis using w1 by simp
  next
    case (Inr u1)
    obtain r2 g2 where e2: "priv_set_target_position g1 (position m) = (r2, g2)"
      by (cases "priv_set_target_position g1 (position m)")
    note s2 = set_target_position_step [OF e2]
    have w2: "writes (client g2) = W @ [L1, L2]"
      using s2(1) w1 s1(2) by (simp add: L2_def)
    show ?thesis
    proof (cases r2)
      case (Inl e)
      then have "r = Inl e" "g = g2"
        using run e1 e2 Inr by (simp_all add: execute_control_movement_def move_to_position_def)
      moreover have "\<not> ok 1"
        using s2(6) Inl s1(3,4) w1 by (auto simp add: ok_def W_def)
      ultimately show ?thesis using w2 by simp
    next
      case (Inr u2)
      note r2 = this
      obtain r3 g3 where e3: "execute_move g2 = (r3, g3)"
        by (cases "execute_move g2")
      note s3 = execute_move_step [OF e3]
      have w3: "writes (client g3) = W @ [L1, L2, L3]"
        using s3(1) w2 s2(2) s1(2) by (simp add: L3_def)
      show ?thesis
      proof (cases r3)
        case (Inl e)
        then have "r = Inl e" "g = g3"
          using run e1 e2 e3 \<open>r1 = Inr u1\<close> r2
          by (simp_all add: execute_control_movement_def move_to_position_def)
        moreover have "\<not> ok 2"
          using s3(6) Inl s1(3,4) s2(3,4) w2 by (auto simp add: ok_def W_def)
        ultimately show ?thesis using w3 by simp
      next
        case (Inr u3)
        obtain r4 g4 where e4: "execute_move g3 = (r4, g4)"
          by (cases "execute_move g3")
        note s4 = execute_move_step [OF e4]
        have w4: "writes (client g4) = W @ [L1, L2, L3, L3]"
          using s4(1) w3 s3(2) s2(2) s1(2) by (simp add: L3_def)
        have rg: "r = r4" "g = g4"
          using run e1 e2 e3 e4 \<open>r1 = Inr u1\<close> r2 Inr
          by (simp_all add: execute_control_movement_def move_to_position_def)
        show ?thesis
        proof (cases "r4 = Inr ()")
          case True
          then show ?thesis using rg w4 by simp
        next
          case False
          then have "\<not> ok 3"
            using s4(6) s1(3,4) s2(3,4) s3(3,4) w3 by (auto simp add: ok_def W_def eval_nat_numeral)
          then show ?thesis using False rg w4 by simp
        qed
      qed
    qed
  qed
qed

text \<open>
  C6. \<open>execute_control_movement\<close> issues its writes in the order SPEED\_FORCE, POSITION,
  CONTROL with the move bit (\<open>0x09\<close>, from \<open>move_to_position\<close>), CONTROL with the move
  bit again (from \<open>execute_move\<close>): whatever the transport does, the writes logged are a
  non-empty initial part of that list, all four when the call returns normally, and it
  returns normally when no timeout encloses it and the transport accepts the four writes.
  So the speed/force and the position registers are written before any control write that
  carries the move-to-target bit.
\<close>

theorem execute_control_movement_order:
  "(\<exists>k. 1 \<le> k \<and> k \<le> 4 \<and>
        writes (client (snd (execute_control_movement self m)))
          = writes (client self) @
            take k [(SPEED_FORCE, [speed m + push_bit 8 (force m)], address self),
                    (POSITION, [push_bit 8 (position m)], address self),
                    (CONTROL, [0x09], address self),
                    (CONTROL, [0x09], address self)])
   \<and> (fst (execute_control_movement self m) = Inr () \<longrightarrow>
        writes (client (snd (execute_control_movement self m)))
          = writes (client self) @
            [(SPEED_FORCE, [speed m + push_bit 8 (force m)], address self),
             (POSITION, [push_bit 8 (position m)], address self),
             (CONTROL, [0x09], address self),
             (CONTROL, [0x09], address self)])
   \<and> (timeout_at (client self) = None \<and>
        (\<forall>i<4. accepted (write_script (client self) (length (writes (client self)) + i))) \<longrightarrow>
        fst (execute_control_movement self m) = Inr ())"
proof -
  obtain r g where run: "execute_control_movement self m = (r, g)"
    by (cases "execute_control_movement self m")
  let ?L = "[(SPEED_FORCE, [speed m + push_bit 8 (force m)], address self),
             (POSITION, [push_bit 8 (position m)], address self),
             (CONTROL, [0x09], address self),
             (CONTROL, [0x09], address self)]"
  note trace = execute_control_movement_trace [OF run]
  have "\<exists>k. 1 \<le> k \<and> k \<le> 4 \<and> writes (client g) = writes (client self) @ take k ?L"
  proof -
    from trace consider
      "writes (client g) = writes (client self) @ take 1 ?L"
      | "writes (client g) = writes (client self) @ take 2 ?L"
      | "writes (client g) = writes (client self) @ take 3 ?L"
      | "writes (client g) = writes (client self) @ take 4 ?L"
      by (auto simp add: eval_nat_numeral)
    then show ?thesis
    proof cases
      case 1 then show ?thesis by (intro exI [of _ 1]) simp
    next
      case 2 then show ?thesis by (intro exI [of _ 2]) simp
    next
      case 3 then show ?thesis by (intro exI [of _ 3]) simp
    next
      case 4 then show ?thesis by (intro exI [of _ 4]) simp
    qed
  qed
  moreover have "r = Inr () \<longrightarrow> writes (client g) = writes (client self) @ ?L"
    using trace by auto
  moreover have "timeout_at (client self) = None \<and>
        (\<forall>i<4. accepted (write_script (client self) (length (writes (client self)) + i))) \<longrightarrow>
        r = Inr ()"
  proof
    assume h: "timeout_at (client self) = None \<and>
        (\<forall>i<4. accepted (write_script (client self) (length (writes (client self)) + i)))"
    then have every: "\<And>i. i < 4 \<Longrightarrow>
        accepted (write_script (client self) (length (writes (client self)) + i))"
      by blast
    have "accepted (write_script (client self) (length (writes (client self)) + 0))"
      "accepted (write_script (client self) (length (writes (client self)) + 1))"
      "accepted (write_script (client self) (length (writes (client self)) + 2))"
      "accepted (write_script (client self) (length (writes (client self)) + 3))"
      by (rule every, simp)+
    with h trace show "r = Inr ()" by blast
  qed
  ultimately show ?thesis
    unfolding run by simp
qed

theorem execute_control_movement_order_witness:
  "fst (execute_control_movement (HomwingGripper_init (stub_client always_moving) 9)
          \<lparr> force = 20, speed = 255, position = 100 \<rparr>) = Inr ()
   \<and> writes (client (snd (execute_control_movement (HomwingGripper_init (stub_client always_moving) 9)
          \<lparr> force = 20, speed = 255, position = 100 \<rparr>)))
       = [(SPEED_FORCE, [0x14FF], 9), (POSITION, [0x6400], 9), (CONTROL, [0x09], 9), (CONTROL, [0x09], 9)]"
proof -
  let ?g = "HomwingGripper_init (stub_client always_moving) 9"
  let ?m = "\<lparr> force = 20, speed = 255, position = 100 \<rparr>"
  have pre: "timeout_at (client ?g) = None \<and>
        (\<forall>i<4. accepted (write_script (client ?g) (length (writes (client ?g)) + i)))"
    by (simp add: HomwingGripper_init_def stub_client_def)
  have ok: "fst (execute_control_movement ?g ?m) = Inr ()"
    using execute_control_movement_order [of ?g ?m] pre by blast
  then have "writes (client (snd (execute_control_movement ?g ?m)))
          = writes (client ?g) @
            [(SPEED_FORCE, [speed ?m + push_bit 8 (force ?m)], address ?g),
             (POSITION, [push_bit 8 (position ?m)], address ?g),
             (CONTROL, [0x09], address ?g),
             (CONTROL, [0x09], address ?g)]"
    using execute_control_movement_order [of ?g ?m] by blast
  then show ?thesis using ok
    by (simp add: HomwingGripper_init_def stub_client_def)
qed

text \<open>
  C7. For speed and force in 0..255 the word that \<open>set_speed_force\<close> writes to
  SPEED\_FORCE, computed as \<open>speed + (force << 8)\<close>, equals \<open>speed | (force << 8)\<close>
  and fits in 16 bits.
\<close>

theorem set_speed_force_word:
  assumes "0 \<le> spd" "spd \<le> 255" "0 \<le> frc" "frc \<le> 255"
  shows "writes (client (snd (set_speed_force self spd frc)))
           = writes (client self) @ [(SPEED_FORCE, [spd OR push_bit 8 frc], address self)]
         \<and> 0 \<le> (spd OR push_bit 8 frc) \<and> (spd OR push_bit 8 frc) \<le> 65535"
proof -
  have eq: "spd + push_bit 8 frc = spd OR push_bit 8 frc"
    using assms by (simp add: low_byte_plus_shift)
  have "0 \<le> spd + frc * 256" "spd + frc * 256 \<le> 65535"
    using assms by simp_all
  then have "0 \<le> spd + push_bit 8 frc" "spd + push_bit 8 frc \<le> 65535"
    by (simp_all add: push_bit_eq_mult)
  then show ?thesis
    unfolding eq [symmetric]
    by (simp add: set_speed_force_def priv_set_speed_force_def write_registers_writes)
qed

theorem set_speed_force_word_witness:
  "(0::int) \<le> 255 \<and> (255::int) \<le> 255 \<and> (0::int) \<le> 20 \<and> (20::int) \<le> 255
   \<and> writes (client (snd (set_speed_force (HomwingGripper_init (stub_client always_moving) 9) 255 20)))
        = [(SPEED_FORCE, [0x14FF], 9)]"
proof -
  have "(255::int) OR push_bit 8 20 = 0x14FF" by simp
  then show ?thesis
    using set_speed_force_word [of 255 20 "HomwingGripper_init (stub_client always_moving) 9"]
    by (simp add: HomwingGripper_init_def stub_client_def)
qed

text \<open>
  C8, as the claim states it: the value written for a position is \<open>position << 8\<close>
  truncated to 16 bits. It fails at position 256, where the value handed to the transport
  is 65536 and not 0.
\<close>

theorem set_target_position_truncates_counterexample:
  "writes (client (snd (set_target_position (HomwingGripper_init (stub_client always_moving) 9) 256)))
     \<noteq> writes (client (HomwingGripper_init (stub_client always_moving) 9))
          @ [(POSITION, [push_bit 8 256 AND 0xFFFF], 9)]
   \<and> writes (client (snd (set_target_position (HomwingGripper_init (stub_client always_moving) 9) 256)))
       = [(POSITION, [65536], 9)]"
  by (simp add: set_target_position_def priv_set_target_position_def write_registers_writes
      HomwingGripper_init_def stub_client_def)

text \<open>
  C8, amended. \<open>set_target_position\<close> hands \<open>position << 8\<close> to the transport as it is,
  an unbounded integer equal to \<open>position * 256\<close>; no bit is dropped by the session. The
  value equals its own truncation to 16 bits exactly when the position is in 0..255.
\<close>

theorem set_target_position_not_truncated:
  "writes (client (snd (set_target_position self pos)))
      = writes (client self) @ [(POSITION, [push_bit 8 pos], address self)]
   \<and> push_bit 8 pos = pos * 256
   \<and> (push_bit 8 pos AND 0xFFFF = push_bit 8 pos) = (0 \<le> pos \<and> pos \<le> 255)"
proof -
  have "writes (client (snd (set_target_position self pos)))
      = writes (client self) @ [(POSITION, [push_bit 8 pos], address self)]"
    by (simp add: set_target_position_def priv_set_target_position_def write_registers_writes)
  moreover have "push_bit 8 pos = pos * 256"
    by (simp add: push_bit_eq_mult)
  ultimately show ?thesis
    using truncation_iff [of pos] by blast
qed

section \<open>Facts about reads and the polling loops\<close>

lemma read_registers_no_timeout:
  assumes "timeout_at c = None"
  shows "read_input_registers reg count slave c =
     ((case registers (read_script c (length (reads c))) of
         None \<Rightarrow> Inl TransportError | Some ws \<Rightarrow> Inr ws),
      c\<lparr>reads := reads c @ [(reg, count, slave)],
        now := now c + latency (read_script c (length (reads c)))\<rparr>)"
  using assms by (simp add: read_input_registers_def Let_def suspend_def split: option.split)

lemma read_registers_in_time:
  assumes "timeout_at c = Some dl" "now c + latency (read_script c (length (reads c))) < dl"
  shows "read_input_registers reg count slave c =
     ((case registers (read_script c (length (reads c))) of
         None \<Rightarrow> Inl TransportError | Some ws \<Rightarrow> Inr ws),
      c\<lparr>reads := reads c @ [(reg, count, slave)],
        now := now c + latency (read_script c (length (reads c)))\<rparr>)"
  using assms by (simp add: read_input_registers_def Let_def suspend_def split: option.split)

lemma read_registers_cancelled:
  assumes "timeout_at c = Some dl" "dl \<le> now c + latency (read_script c (length (reads c)))"
  shows "read_input_registers reg count slave c =
     (Inl CancelledError, c\<lparr>reads := reads c @ [(reg, count, slave)], now := max (now c) dl\<rparr>)"
  using assms by (simp add: read_input_registers_def Let_def suspend_def)

lemma read_registers_not_timeout:
  "fst (read_input_registers reg count slave c) \<noteq> Inl TimeoutError"
proof -
  let ?c1 = "c\<lparr>reads := reads c @ [(reg, count, slave)]\<rparr>"
  let ?d = "latency (read_script c (length (reads c)))"
  have "fst (suspend ?d ?c1) \<noteq> Inl TimeoutError" by (rule suspend_not_timeout)
  then show ?thesis
    by (cases "suspend ?d ?c1")
       (auto simp add: read_input_registers_def Let_def split: sum.split option.split)
qed

lemma on_client_eq: "on_client f self = (fst (f (client self)), self\<lparr>client := snd (f (client self))\<rparr>)"
  by (simp add: on_client_def split: prod.split)

lemma reported_status_Some:
  assumes "reported_status r = Some st"
  obtains w ws where "registers r = Some (w # ws)" "GripperStatus_from_u8 (w AND 0xFF) = Inr st"
  using assms
  by (auto simp add: reported_status_def split: option.splits list.splits sum.splits)

lemma read_gripper_status_no_timeout:
  assumes "timeout_at (client self) = None" "next_status self 0 = Some st"
  shows "read_gripper_status self = (Inr st, after_read self)"
proof -
  from assms(2) obtain w ws where
    "registers (read_script (client self) (length (reads (client self)))) = Some (w # ws)"
    "GripperStatus_from_u8 (w AND 0xFF) = Inr st"
    by (auto simp add: next_status_def elim: reported_status_Some)
  then show ?thesis
    using assms(1)
    by (simp add: read_gripper_status_def priv_read_gripper_status_def on_client_eq
        read_registers_no_timeout after_read_def next_latency_def)
qed

lemma read_gripper_status_in_time:
  assumes "timeout_at (client self) = Some dl" "now (client self) + next_latency self 0 < dl"
    "next_status self 0 = Some st"
  shows "read_gripper_status self = (Inr st, after_read self)"
proof -
  from assms(3) obtain w ws where
    "registers (read_script (client self) (length (reads (client self)))) = Some (w # ws)"
    "GripperStatus_from_u8 (w AND 0xFF) = Inr st"
    by (auto simp add: next_status_def elim: reported_status_Some)
  then show ?thesis
    using assms(1,2)
    by (simp add: read_gripper_status_def priv_read_gripper_status_def on_client_eq
        read_registers_in_time after_read_def next_latency_def)
qed

lemma read_gripper_status_cancelled:
  assumes "timeout_at (client self) = Some dl" "dl \<le> now (client self) + next_latency self 0"
  shows "read_gripper_status self =
     (Inl CancelledError,
      self\<lparr>client := (client self)
        \<lparr>reads := reads (client self) @ [(STATUS, 2, address self)],
         now := max (now (client self)) dl\<rparr>\<rparr>)"
  using assms
  by (simp add: read_gripper_status_def priv_read_gripper_status_def on_client_eq
      read_registers_cancelled next_latency_def)

lemma sleep_no_timeout:
  assumes "timeout_at (client self) = None"
  shows "asyncio_sleep ms self = (Inr (), self\<lparr>client := (client self)\<lparr>now := now (client self) + ms\<rparr>\<rparr>)"
  using assms by (simp add: asyncio_sleep_def on_client_eq suspend_def)

lemma sleep_in_time:
  assumes "timeout_at (client self) = Some dl" "now (client self) + ms < dl"
  shows "asyncio_sleep ms self = (Inr (), self\<lparr>client := (client self)\<lparr>now := now (client self) + ms\<rparr>\<rparr>)"
  using assms by (simp add: asyncio_sleep_def on_client_eq suspend_def)

lemma sleep_cancelled:
  assumes "timeout_at (client self) = Some dl" "dl \<le> now (client self) + ms"
  shows "asyncio_sleep ms self =
    (Inl CancelledError, self\<lparr>client := (client self)\<lparr>now := max (now (client self)) dl\<rparr>\<rparr>)"
  using assms by (simp add: asyncio_sleep_def on_client_eq suspend_def)

lemma sleep_after_read_no_timeout:
  assumes "timeout_at (client self) = None"
  shows "asyncio_sleep 100 (after_read self) = (Inr (), after_poll self)"
  using assms by (simp add: sleep_no_timeout after_read_def after_poll_def)

lemma sleep_after_read_in_time:
  assumes "timeout_at (client self) = Some dl"
    "now (client self) + next_latency self 0 + 100 < dl"
  shows "asyncio_sleep 100 (after_read self) = (Inr (), after_poll self)"
  using assms by (simp add: sleep_in_time [where dl = dl] after_read_def after_poll_def)

lemma sleep_after_read_cancelled:
  assumes "timeout_at (client self) = Some dl"
    "dl \<le> now (client self) + next_latency self 0 + 100"
  shows "asyncio_sleep 100 (after_read self) =
    (Inl CancelledError,
     (after_read self)\<lparr>client := (client (after_read self))
        \<lparr>now := max (now (client self) + next_latency self 0) dl\<rparr>\<rparr>)"
  using assms by (simp add: sleep_cancelled [where dl = dl] after_read_def)

lemma after_read_fields [simp]:
  "timeout_at (client (after_read self)) = timeout_at (client self)"
  "read_script (client (after_read self)) = read_script (client self)"
  "length (reads (client (after_read self))) = Suc (length (reads (client self)))"
  "writes (client (after_read self)) = writes (client self)"
  "now (client (after_read self)) = now (client self) + next_latency self 0"
  "address (after_read self) = address self"
  by (simp_all add: after_read_def)

lemma after_poll_fields [simp]:
  "timeout_at (client (after_poll self)) = timeout_at (client self)"
  "read_script (client (after_poll self)) = read_script (client self)"
  "length (reads (client (after_poll self))) = Suc (length (reads (client self)))"
  "writes (client (after_poll self)) = writes (client self)"
  "now (client (after_poll self)) = now (client self) + next_latency self 0 + 100"
  "address (after_poll self) = address self"
  by (simp_all add: after_poll_def)

lemma next_after_poll [simp]:
  "next_status (after_poll self) i = next_status self (Suc i)"
  "next_latency (after_poll self) i = next_latency self (Suc i)"
  by (simp_all add: next_status_def next_latency_def)

lemma wait_for_move_moving_step:
  assumes "timeout_at (client self) = None" "next_status self 0 = Some st"
    "gOBJ st = MOVING_TO_POSITION"
  shows "wait_for_move self = wait_for_move (after_poll self)"
  using assms
  by (subst wait_for_move.simps)
     (simp add: read_gripper_status_no_timeout sleep_after_read_no_timeout)

lemma wait_for_move_done_step:
  assumes "timeout_at (client self) = None" "next_status self 0 = Some st"
    "gOBJ st \<noteq> MOVING_TO_POSITION"
  shows "wait_for_move self = Some (Inr (), after_read self)"
  using assms
  by (subst wait_for_move.simps) (simp add: read_gripper_status_no_timeout)

lemma keeps_moving_after_poll: "keeps_moving self \<Longrightarrow> keeps_moving (after_poll self)"
  by (simp add: keeps_moving_def)

lemma wait_for_move_never:
  assumes ret: "wait_for_move self = Some y"
  shows "\<not> keeps_moving self"
proof (rule wait_for_move.raw_induct [where P = "\<lambda>x y. \<not> keeps_moving x", OF _ ret], goal_cases)
  case (1 f x z)
  show ?case
  proof
    assume inv: "keeps_moving x"
    then obtain st where st: "next_status x 0 = Some st" "gOBJ st = MOVING_TO_POSITION"
      and nt: "timeout_at (client x) = None"
      by (auto simp add: keeps_moving_def)
    from 1(2) have "f (after_poll x) = Some z"
      by (simp add: read_gripper_status_no_timeout [OF nt st(1)] st(2)
          sleep_after_read_no_timeout [OF nt])
    then have "\<not> keeps_moving (after_poll x)" by (rule 1(1))
    with inv show False by (simp add: keeps_moving_after_poll)
  qed
qed

lemma wait_for_move_returns:
  assumes "timeout_at (client self) = None"
    and "\<forall>i<k. \<exists>st. next_status self i = Some st \<and> gOBJ st = MOVING_TO_POSITION"
    and "next_status self k = Some st" "gOBJ st \<noteq> MOVING_TO_POSITION"
  shows "\<exists>s. wait_for_move self = Some (Inr (), s)
            \<and> length (reads (client s)) = length (reads (client self)) + k + 1
            \<and> now (client s) = now (client self) + (\<Sum>i\<le>k. next_latency self i) + 100 * k
            \<and> writes (client s) = writes (client self)"
  using assms
proof (induction k arbitrary: self)
  case 0
  then show ?case by (simp add: wait_for_move_done_step)
next
  case (Suc k)
  from Suc.prems(2) obtain st0 where st0: "next_status self 0 = Some st0" "gOBJ st0 = MOVING_TO_POSITION"
    by auto
  have step: "wait_for_move self = wait_for_move (after_poll self)"
    using Suc.prems(1) st0 by (rule wait_for_move_moving_step)
  have "\<exists>s. wait_for_move (after_poll self) = Some (Inr (), s)
            \<and> length (reads (client s)) = length (reads (client (after_poll self))) + k + 1
            \<and> now (client s) = now (client (after_poll self)) + (\<Sum>i\<le>k. next_latency (after_poll self) i) + 100 * k
            \<and> writes (client s) = writes (client (after_poll self))"
  proof (rule Suc.IH)
    show "timeout_at (client (after_poll self)) = None" using Suc.prems(1) by simp
    show "\<forall>i<k. \<exists>st. next_status (after_poll self) i = Some st \<and> gOBJ st = MOVING_TO_POSITION"
      using Suc.prems(2) by auto
    show "next_status (after_poll self) k = Some st" using Suc.prems(3) by simp
    show "gOBJ st \<noteq> MOVING_TO_POSITION" by (rule Suc.prems(4))
  qed
  then show ?case
    unfolding step by (auto simp add: sum.atMost_Suc_shift simp del: sum.atMost_Suc)
qed

lemma status_0x10: "GripperStatus_from_u8 0x10 =
  Inr \<lparr> gACT = False, gDropSta = False, gMODE = False, gGTO = False,
        gSTA = ACTIVATING, gOBJ = MOVING_TO_POSITION \<rparr>"
  by (simp add: from_u8_bits GSTA_call_def GOBJ_call_def drop_bit_eq_div and_3_take_bit take_bit_eq_mod)

lemma status_0x30: "GripperStatus_from_u8 0x30 =
  Inr \<lparr> gACT = False, gDropSta = False, gMODE = False, gGTO = False,
        gSTA = ACTIVATED, gOBJ = MOVING_TO_POSITION \<rparr>"
  by (simp add: from_u8_bits GSTA_call_def GOBJ_call_def drop_bit_eq_div and_3_take_bit take_bit_eq_mod)

lemma status_0x70: "GripperStatus_from_u8 0x70 =
  Inr \<lparr> gACT = False, gDropSta = False, gMODE = False, gGTO = False,
        gSTA = ACTIVATED, gOBJ = INNER_SUPPORT \<rparr>"
  by (simp add: from_u8_bits GSTA_call_def GOBJ_call_def drop_bit_eq_div and_3_take_bit take_bit_eq_mod)

lemma stub_fields [simp]:
  "timeout_at (client (HomwingGripper_init (stub_client script) a)) = None"
  "now (client (HomwingGripper_init (stub_client script) a)) = 0"
  "reads (client (HomwingGripper_init (stub_client script) a)) = []"
  "writes (client (HomwingGripper_init (stub_client script) a)) = []"
  "read_script (client (HomwingGripper_init (stub_client script) a)) = script"
  by (simp_all add: HomwingGripper_init_def stub_client_def)

text \<open>
  C5. When the read returns a word \<open>w\<close>, \<open>read_fault_position\<close> returns the fault flags
  decoded from the low byte \<open>w & 0xFF\<close>, whose bits 0 to 6 are, in order,
  \<open>control_command_error\<close>, \<open>communication_fault\<close>, \<open>overcurrent_fault\<close>,
  \<open>voltage_fault\<close>, \<open>enabling_fault\<close>, \<open>overtemperature_fault\<close>, \<open>self_fault\<close>,
  and the position \<open>(w >> 8) & 0xFF\<close>. The word \<open>0x0203\<close> has \<open>communication_fault\<close>
  set and position 2; the word \<open>0x0105\<close> has exactly \<open>control_command_error\<close> and
  \<open>overcurrent_fault\<close> set and position 1.
\<close>

theorem read_fault_position_decodes:
  assumes "timeout_at (client self) = None"
    and "registers (read_script (client self) (length (reads (client self)))) = Some (w # ws)"
  shows "fst (read_fault_position self)
           = Inr \<lparr> fault = GripperFaultStatus_from_u8 (w AND 0xFF),
                   fp_position = drop_bit 8 w AND 0xFF \<rparr>
         \<and> GripperFaultStatus_from_u8 (w AND 0xFF)
           = \<lparr> control_command_error = bit w 0, communication_fault = bit w 1,
               overcurrent_fault = bit w 2, voltage_fault = bit w 3, enabling_fault = bit w 4,
               overtemperature_fault = bit w 5, self_fault = bit w 6 \<rparr>
         \<and> communication_fault (GripperFaultStatus_from_u8 (0x0203 AND 0xFF))
         \<and> drop_bit 8 (0x0203 :: int) AND 0xFF = 2
         \<and> GripperFaultStatus_from_u8 (0x0105 AND 0xFF)
           = \<lparr> control_command_error = True, communication_fault = False,
               overcurrent_fault = True, voltage_fault = False, enabling_fault = False,
               overtemperature_fault = False, self_fault = False \<rparr>
         \<and> drop_bit 8 (0x0105 :: int) AND 0xFF = 1"
proof -
  have "fst (read_fault_position self)
           = Inr \<lparr> fault = GripperFaultStatus_from_u8 (w AND 0xFF),
                   fp_position = drop_bit 8 w AND 0xFF \<rparr>"
    using assms
    by (simp add: read_fault_position_def priv_read_fault_position_def on_client_eq
        read_registers_no_timeout)
  moreover have "communication_fault (GripperFaultStatus_from_u8 (0x0203 AND 0xFF))"
    by (simp add: fault_bits)
  moreover have "drop_bit 8 (0x0203 :: int) AND 0xFF = 2" "drop_bit 8 (0x0105 :: int) AND 0xFF = 1"
    by (simp_all add: drop_bit_eq_div and_255_take_bit take_bit_eq_mod)
  moreover have "GripperFaultStatus_from_u8 (0x0105 AND 0xFF)
           = \<lparr> control_command_error = True, communication_fault = False,
               overcurrent_fault = True, voltage_fault = False, enabling_fault = False,
               overtemperature_fault = False, self_fault = False \<rparr>"
    by (simp add: fault_bits)
  ultimately show ?thesis
    using fault_low_byte [of w] by blast
qed

theorem read_fault_position_decodes_witness:
  "timeout_at (client (HomwingGripper_init (stub_client (fault_word 0x0105)) 9)) = None
   \<and> registers (read_script (client (HomwingGripper_init (stub_client (fault_word 0x0105)) 9))
        (length (reads (client (HomwingGripper_init (stub_client (fault_word 0x0105)) 9)))))
       = Some [0x0105]
   \<and> fst (read_fault_position (HomwingGripper_init (stub_client (fault_word 0x0105)) 9))
       = Inr \<lparr> fault = \<lparr> control_command_error = True, communication_fault = False,
                 overcurrent_fault = True, voltage_fault = False, enabling_fault = False,
                 overtemperature_fault = False, self_fault = False \<rparr>,
               fp_position = 1 \<rparr>"
proof -
  let ?g = "HomwingGripper_init (stub_client (fault_word 0x0105)) 9"
  have a: "timeout_at (client ?g) = None"
    by (simp add: HomwingGripper_init_def stub_client_def)
  have b: "registers (read_script (client ?g) (length (reads (client ?g)))) = Some (0x0105 # [])"
    by (simp add: HomwingGripper_init_def stub_client_def fault_word_def)
  show ?thesis
    using read_fault_position_decodes [OF a b] a b by simp
qed

text \<open>
  C4. \<open>wait_for_move\<close> has no timeout of its own: when no timeout encloses the call and
  every read reports MOVING\_TO\_POSITION the loop never returns, and when the first
  \<open>k\<close> reads report MOVING\_TO\_POSITION and the next one reports another motion state
  it returns normally at that read, after \<open>k + 1\<close> reads and \<open>k\<close> sleeps of 100 ms,
  having written nothing.
\<close>

theorem wait_for_move_unbounded:
  "(timeout_at (client self) = None \<and>
    (\<forall>i. \<exists>st. next_status self i = Some st \<and> gOBJ st = MOVING_TO_POSITION) \<longrightarrow>
      wait_for_move self = None)
   \<and> (timeout_at (client self) = None \<and>
      (\<forall>i<k. \<exists>st. next_status self i = Some st \<and> gOBJ st = MOVING_TO_POSITION) \<and>
      (\<exists>st. next_status self k = Some st \<and> gOBJ st \<noteq> MOVING_TO_POSITION) \<longrightarrow>
        (\<exists>s. wait_for_move self = Some (Inr (), s)
           \<and> length (reads (client s)) = length (reads (client self)) + k + 1
           \<and> now (client s) = now (client self) + (\<Sum>i\<le>k. next_latency self i) + 100 * k
           \<and> writes (client s) = writes (client self)))"
proof (intro conjI impI)
  assume "timeout_at (client self) = None \<and>
    (\<forall>i. \<exists>st. next_status self i = Some st \<and> gOBJ st = MOVING_TO_POSITION)"
  then have "keeps_moving self" by (simp add: keeps_moving_def)
  then show "wait_for_move self = None"
    using wait_for_move_never [of self] by (cases "wait_for_move self") auto
next
  assume h: "timeout_at (client self) = None \<and>
      (\<forall>i<k. \<exists>st. next_status self i = Some st \<and> gOBJ st = MOVING_TO_POSITION) \<and>
      (\<exists>st. next_status self k = Some st \<and> gOBJ st \<noteq> MOVING_TO_POSITION)"
  then obtain st where "next_status self k = Some st" "gOBJ st \<noteq> MOVING_TO_POSITION"
    by blast
  with h show "\<exists>s. wait_for_move self = Some (Inr (), s)
           \<and> length (reads (client s)) = length (reads (client self)) + k + 1
           \<and> now (client s) = now (client self) + (\<Sum>i\<le>k. next_latency self i) + 100 * k
           \<and> writes (client s) = writes (client self)"
    by (intro wait_for_move_returns) blast+
qed

theorem wait_for_move_unbounded_witness:
  "wait_for_move (HomwingGripper_init (stub_client always_moving) 9) = None
   \<and> (\<exists>s. wait_for_move (HomwingGripper_init (stub_client moving_twice) 9) = Some (Inr (), s)
          \<and> length (reads (client s)) = 3 \<and> now (client s) = 200 \<and> writes (client s) = [])"
proof -
  let ?g1 = "HomwingGripper_init (stub_client always_moving) 9"
  let ?g2 = "HomwingGripper_init (stub_client moving_twice) 9"
  have a: "timeout_at (client ?g1) = None \<and>
    (\<forall>i. \<exists>st. next_status ?g1 i = Some st \<and> gOBJ st = MOVING_TO_POSITION)"
    by (simp add: next_status_def reported_status_def always_moving_def status_0x30)
  have b: "timeout_at (client ?g2) = None \<and>
      (\<forall>i<2. \<exists>st. next_status ?g2 i = Some st \<and> gOBJ st = MOVING_TO_POSITION) \<and>
      (\<exists>st. next_status ?g2 2 = Some st \<and> gOBJ st \<noteq> MOVING_TO_POSITION)"
    by (simp add: next_status_def reported_status_def moving_twice_def status_0x30 status_0x70)
  have c: "(\<Sum>i\<le>2. next_latency ?g2 i) = 0"
    by (simp add: next_latency_def moving_twice_def)
  have w1: "wait_for_move ?g1 = None"
    using wait_for_move_unbounded [of ?g1 0] a by blast
  have "\<exists>s. wait_for_move ?g2 = Some (Inr (), s)
           \<and> length (reads (client s)) = length (reads (client ?g2)) + 2 + 1
           \<and> now (client s) = now (client ?g2) + (\<Sum>i\<le>2. next_latency ?g2 i) + 100 * 2
           \<and> writes (client s) = writes (client ?g2)"
    using wait_for_move_unbounded [of ?g2 2] b by blast
  then show ?thesis
    using w1 unfolding c by (simp add: numeral_3_eq_3)
qed

section \<open>No operation but the bounded wait raises a timeout\<close>

lemma read_registers_fields:
  "timeout_at (snd (read_input_registers reg count slave c)) = timeout_at c"
  "now c \<le> now (snd (read_input_registers reg count slave c))"
proof -
  let ?c1 = "c\<lparr>reads := reads c @ [(reg, count, slave)]\<rparr>"
  let ?d = "latency (read_script c (length (reads c)))"
  have a: "timeout_at (snd (suspend ?d ?c1)) = timeout_at c" by simp
  have b: "now c \<le> now (snd (suspend ?d ?c1))"
    by (simp add: suspend_def split: option.split)
  have s: "snd (read_input_registers reg count slave c) = snd (suspend ?d ?c1)"
    by (cases "suspend ?d ?c1")
       (auto simp add: read_input_registers_def Let_def split: sum.split option.split)
  show "timeout_at (snd (read_input_registers reg count slave c)) = timeout_at c"
    unfolding s by (rule a)
  show "now c \<le> now (snd (read_input_registers reg count slave c))"
    unfolding s by (rule b)
qed

lemma read_gripper_status_snd:
  "snd (read_gripper_status self)
     = self\<lparr>client := snd (read_input_registers STATUS 2 (address self) (client self))\<rparr>"
  by (simp add: read_gripper_status_def priv_read_gripper_status_def on_client_eq
      split: sum.split list.split prod.split)

lemma read_gripper_status_fields:
  assumes "read_gripper_status self = (r, s)"
  shows "timeout_at (client s) = timeout_at (client self)"
    and "now (client self) \<le> now (client s)"
proof -
  have s: "s = self\<lparr>client := snd (read_input_registers STATUS 2 (address self) (client self))\<rparr>"
    using assms read_gripper_status_snd [of self] by simp
  show "timeout_at (client s) = timeout_at (client self)"
    unfolding s by (simp add: read_registers_fields)
  show "now (client self) \<le> now (client s)"
    unfolding s by (simp add: read_registers_fields)
qed

lemma from_u8_not_timeout: "GripperStatus_from_u8 v \<noteq> Inl TimeoutError"
  by (simp add: GripperStatus_from_u8_def GSTA_call_def GOBJ_call_def split: sum.split)

lemma read_gripper_status_not_timeout: "fst (read_gripper_status self) \<noteq> Inl TimeoutError"
  using read_registers_not_timeout [of STATUS 2 "address self" "client self"]
  by (auto simp add: read_gripper_status_def priv_read_gripper_status_def on_client_eq
      from_u8_not_timeout split: sum.split list.split prod.split)

lemma read_fault_position_not_timeout: "fst (read_fault_position self) \<noteq> Inl TimeoutError"
  using read_registers_not_timeout [of FAULT_POSITION_STATUS 1 "address self" "client self"]
  by (auto simp add: read_fault_position_def priv_read_fault_position_def on_client_eq
      split: sum.split list.split prod.split)

lemma read_speed_force_not_timeout: "fst (read_speed_force self) \<noteq> Inl TimeoutError"
  using read_registers_not_timeout [of SPEED_FORCE_STATUS 1 "address self" "client self"]
  by (auto simp add: read_speed_force_def priv_read_speed_force_def on_client_eq
      split: sum.split list.split prod.split)

lemma read_voltage_temperature_not_timeout:
  "fst (read_voltage_temperature self) \<noteq> Inl TimeoutError"
  using read_registers_not_timeout [of VOLTAGE_TEMPERATURE_STATUS 1 "address self" "client self"]
  by (auto simp add: read_voltage_temperature_def priv_read_voltage_temperature_def on_client_eq
      split: sum.split list.split prod.split)

lemma read_software_version_not_timeout:
  "fst (read_software_version self) \<noteq> Inl TimeoutError"
  by (simp add: read_software_version_def read_registers_not_timeout)

lemma write_control_register_not_timeout:
  "fst (write_control_register self control) \<noteq> Inl TimeoutError"
  by (simp add: write_control_register_def write_registers_not_timeout)

lemma simple_writes_not_timeout:
  "fst (clear_control_register self) \<noteq> Inl TimeoutError"
  "fst (activate self) \<noteq> Inl TimeoutError"
  "fst (stop self) \<noteq> Inl TimeoutError"
  "fst (execute_move self) \<noteq> Inl TimeoutError"
  "fst (set_target_position self pos) \<noteq> Inl TimeoutError"
  "fst (set_speed_force self spd frc) \<noteq> Inl TimeoutError"
  by (simp_all add: clear_control_register_def activate_def stop_def execute_move_def
      set_target_position_def priv_set_target_position_def set_speed_force_def
      priv_set_speed_force_def write_control_register_not_timeout write_registers_not_timeout)

lemma move_to_position_not_timeout: "fst (move_to_position self pos) \<noteq> Inl TimeoutError"
proof -
  obtain r g where e: "priv_set_target_position self pos = (r, g)"
    by (cases "priv_set_target_position self pos")
  show ?thesis
    using set_target_position_step(5) [OF e] simple_writes_not_timeout(4) [of g]
    by (cases r) (simp_all add: move_to_position_def e)
qed

lemma execute_control_movement_not_timeout:
  "fst (execute_control_movement self m) \<noteq> Inl TimeoutError"
proof -
  obtain r1 g1 where e1: "set_speed_force self (speed m) (force m) = (r1, g1)"
    by (cases "set_speed_force self (speed m) (force m)")
  obtain r2 g2 where e2: "move_to_position g1 (position m) = (r2, g2)"
    by (cases "move_to_position g1 (position m)")
  have n1: "r1 \<noteq> Inl TimeoutError" using simple_writes_not_timeout(6) [of self "speed m" "force m"] e1 by simp
  have n2: "r2 \<noteq> Inl TimeoutError" using move_to_position_not_timeout [of g1 "position m"] e2 by simp
  show ?thesis
    using n1 n2 simple_writes_not_timeout(4) [of g2]
    by (cases r1; cases r2) (simp_all add: execute_control_movement_def e1 e2)
qed

lemma sleep_not_timeout: "fst (asyncio_sleep ms self) \<noteq> Inl TimeoutError"
  by (simp add: asyncio_sleep_def suspend_not_timeout)

lemma wait_for_move_not_timeout:
  assumes ret: "wait_for_move self = Some y"
  shows "fst y \<noteq> Inl TimeoutError"
proof (rule wait_for_move.raw_induct [where P = "\<lambda>x y. fst y \<noteq> Inl TimeoutError", OF _ ret], goal_cases)
  case (1 f x z)
  obtain r s where e: "read_gripper_status x = (r, s)" by (cases "read_gripper_status x")
  have nr: "r \<noteq> Inl TimeoutError" using read_gripper_status_not_timeout [of x] e by simp
  show ?case
  proof (cases r)
    case (Inl err)
    then show ?thesis using 1(2) e nr by auto
  next
    case (Inr st)
    obtain r' s' where e': "asyncio_sleep 100 s = (r', s')" by (cases "asyncio_sleep 100 s")
    have nr': "r' \<noteq> Inl TimeoutError" using sleep_not_timeout [of 100 s] e' by simp
    show ?thesis
    proof (cases "gOBJ st \<noteq> MOVING_TO_POSITION")
      case True
      then show ?thesis using 1(2) e Inr by auto
    next
      case False
      show ?thesis
      proof (cases r')
        case (Inl err)
        then show ?thesis using 1(2) e \<open>r = Inr st\<close> False e' nr' by auto
      next
        case (Inr u)
        then have "f s' = Some z" using 1(2) e \<open>r = Inr st\<close> False e' by auto
        then show ?thesis by (rule 1(1))
      qed
    qed
  qed
qed

lemma activation_loop_not_timeout:
  assumes ret: "activation_loop self = Some y"
  shows "fst y \<noteq> Inl TimeoutError"
proof (rule activation_loop.raw_induct [where P = "\<lambda>x y. fst y \<noteq> Inl TimeoutError", OF _ ret], goal_cases)
  case (1 f x z)
  obtain r s where e: "read_gripper_status x = (r, s)" by (cases "read_gripper_status x")
  have nr: "r \<noteq> Inl TimeoutError" using read_gripper_status_not_timeout [of x] e by simp
  show ?case
  proof (cases r)
    case (Inl err)
    then show ?thesis using 1(2) e nr by auto
  next
    case (Inr st)
    obtain r' s' where e': "asyncio_sleep 100 s = (r', s')" by (cases "asyncio_sleep 100 s")
    have nr': "r' \<noteq> Inl TimeoutError" using sleep_not_timeout [of 100 s] e' by simp
    show ?thesis
    proof (cases "gSTA st = ACTIVATED")
      case True
      then show ?thesis using 1(2) e Inr by auto
    next
      case False
      show ?thesis
      proof (cases r')
        case (Inl err)
        then show ?thesis using 1(2) e \<open>r = Inr st\<close> False e' nr' by auto
      next
        case (Inr u)
        then have "f s' = Some z" using 1(2) e \<open>r = Inr st\<close> False e' by auto
        then show ?thesis by (rule 1(1))
      qed
    qed
  qed
qed

section \<open>The activation loop under its deadline\<close>

lemma activation_done_step:
  assumes "timeout_at (client self) = Some dl" "now (client self) + next_latency self 0 < dl"
    "next_status self 0 = Some st" "gSTA st = ACTIVATED"
  shows "activation_loop self = Some (Inr (), after_read self)"
  using assms
  by (subst activation_loop.simps) (simp add: read_gripper_status_in_time [where dl = dl])

lemma activation_poll_step:
  assumes "timeout_at (client self) = Some dl"
    "now (client self) + next_latency self 0 + 100 < dl"
    "next_status self 0 = Some st" "gSTA st \<noteq> ACTIVATED"
  shows "activation_loop self = activation_loop (after_poll self)"
  using assms
  by (subst activation_loop.simps)
     (simp add: read_gripper_status_in_time [where dl = dl]
        sleep_after_read_in_time [where dl = dl])

lemma activation_cancelled_in_read:
  assumes "timeout_at (client self) = Some dl" "now (client self) < dl"
    "dl \<le> now (client self) + next_latency self 0"
  shows "\<exists>s. activation_loop self = Some (Inl CancelledError, s)
          \<and> now (client s) = dl \<and> timeout_at (client s) = Some dl"
  using assms
  by (subst activation_loop.simps) (simp add: read_gripper_status_cancelled [where dl = dl])

lemma activation_cancelled_in_sleep:
  assumes "timeout_at (client self) = Some dl"
    "now (client self) + next_latency self 0 < dl"
    "dl \<le> now (client self) + next_latency self 0 + 100"
    "next_status self 0 = Some st" "gSTA st \<noteq> ACTIVATED"
  shows "\<exists>s. activation_loop self = Some (Inl CancelledError, s)
          \<and> now (client s) = dl \<and> timeout_at (client s) = Some dl"
  using assms
  by (subst activation_loop.simps)
     (simp add: read_gripper_status_in_time [where dl = dl]
        sleep_after_read_cancelled [where dl = dl])

lemma activation_loop_succeeds:
  assumes "timeout_at (client self) = Some dl"
    and "\<forall>i<k. \<exists>st. next_status self i = Some st \<and> gSTA st \<noteq> ACTIVATED"
    and "next_status self k = Some st" "gSTA st = ACTIVATED"
    and "now (client self) + (\<Sum>i\<le>k. next_latency self i) + 100 * k < dl"
  shows "\<exists>s. activation_loop self = Some (Inr (), s)
            \<and> length (reads (client s)) = length (reads (client self)) + k + 1
            \<and> now (client s) = now (client self) + (\<Sum>i\<le>k. next_latency self i) + 100 * k
            \<and> timeout_at (client s) = Some dl
            \<and> writes (client s) = writes (client self)"
  using assms
proof (induction k arbitrary: self)
  case 0
  then show ?case by (simp add: activation_done_step [where dl = dl])
next
  case (Suc k)
  from Suc.prems(2) obtain st0 where st0: "next_status self 0 = Some st0" "gSTA st0 \<noteq> ACTIVATED"
    by auto
  have time: "now (client self) + next_latency self 0
                + (\<Sum>i\<le>k. next_latency self (Suc i)) + 100 + 100 * k < dl"
    using Suc.prems(5) by (simp add: sum.atMost_Suc_shift del: sum.atMost_Suc)
  then have "now (client self) + next_latency self 0 + 100 < dl" by simp
  then have step: "activation_loop self = activation_loop (after_poll self)"
    using Suc.prems(1) st0 by (intro activation_poll_step [where dl = dl])
  have "\<exists>s. activation_loop (after_poll self) = Some (Inr (), s)
            \<and> length (reads (client s)) = length (reads (client (after_poll self))) + k + 1
            \<and> now (client s) = now (client (after_poll self))
                 + (\<Sum>i\<le>k. next_latency (after_poll self) i) + 100 * k
            \<and> timeout_at (client s) = Some dl
            \<and> writes (client s) = writes (client (after_poll self))"
  proof (rule Suc.IH)
    show "timeout_at (client (after_poll self)) = Some dl" using Suc.prems(1) by simp
    show "\<forall>i<k. \<exists>st. next_status (after_poll self) i = Some st \<and> gSTA st \<noteq> ACTIVATED"
      using Suc.prems(2) by auto
    show "next_status (after_poll self) k = Some st" using Suc.prems(3) by simp
    show "gSTA st = ACTIVATED" by (rule Suc.prems(4))
    show "now (client (after_poll self)) + (\<Sum>i\<le>k. next_latency (after_poll self) i) + 100 * k < dl"
      using time by simp
  qed
  then show ?case
    unfolding step by (auto simp add: sum.atMost_Suc_shift simp del: sum.atMost_Suc)
qed

lemma not_activated_in_time_after_poll:
  assumes "\<forall>i. now (client self) + (\<Sum>j\<le>i. next_latency self j) + 100 * i < dl \<longrightarrow>
             (\<exists>st. next_status self i = Some st \<and> gSTA st \<noteq> ACTIVATED)"
  shows "\<forall>i. now (client (after_poll self)) + (\<Sum>j\<le>i. next_latency (after_poll self) j)
               + 100 * i < dl \<longrightarrow>
             (\<exists>st. next_status (after_poll self) i = Some st \<and> gSTA st \<noteq> ACTIVATED)"
proof (intro allI impI)
  fix i
  assume "now (client (after_poll self)) + (\<Sum>j\<le>i. next_latency (after_poll self) j)
            + 100 * i < dl"
  then have "now (client self) + (\<Sum>j\<le>Suc i. next_latency self j) + 100 * Suc i < dl"
    by (simp add: sum.atMost_Suc_shift del: sum.atMost_Suc)
  with assms have "\<exists>st. next_status self (Suc i) = Some st \<and> gSTA st \<noteq> ACTIVATED"
    by blast
  then show "\<exists>st. next_status (after_poll self) i = Some st \<and> gSTA st \<noteq> ACTIVATED"
    by simp
qed

lemma activation_loop_times_out:
  assumes "timeout_at (client self) = Some dl" "now (client self) < dl"
    and "\<forall>i. now (client self) + (\<Sum>j\<le>i. next_latency self j) + 100 * i < dl \<longrightarrow>
             (\<exists>st. next_status self i = Some st \<and> gSTA st \<noteq> ACTIVATED)"
  shows "\<exists>s. activation_loop self = Some (Inl CancelledError, s)
            \<and> now (client s) = dl \<and> timeout_at (client s) = Some dl"
  using assms
proof (induction "dl - now (client self)" arbitrary: self rule: less_induct)
  case less
  consider (read) "dl \<le> now (client self) + next_latency self 0"
    | (sleep) "now (client self) + next_latency self 0 < dl"
        "dl \<le> now (client self) + next_latency self 0 + 100"
    | (again) "now (client self) + next_latency self 0 + 100 < dl"
    by linarith
  then show ?case
  proof cases
    case read
    then show ?thesis
      using less.prems(1,2) by (intro activation_cancelled_in_read)
  next
    case sleep
    from sleep(1) have "now (client self) + (\<Sum>j\<le>0. next_latency self j) + 100 * 0 < dl"
      by simp
    with less.prems(3) obtain st0 where
      st0: "next_status self 0 = Some st0" "gSTA st0 \<noteq> ACTIVATED"
      by blast
    show ?thesis
      using less.prems(1) sleep st0 by (intro activation_cancelled_in_sleep)
  next
    case again
    then have "now (client self) + (\<Sum>j\<le>0. next_latency self j) + 100 * 0 < dl"
      by simp
    with less.prems(3) obtain st0 where
      st0: "next_status self 0 = Some st0" "gSTA st0 \<noteq> ACTIVATED"
      by blast
    have step: "activation_loop self = activation_loop (after_poll self)"
      using less.prems(1) again st0 by (rule activation_poll_step)
    have "\<exists>s. activation_loop (after_poll self) = Some (Inl CancelledError, s)
            \<and> now (client s) = dl \<and> timeout_at (client s) = Some dl"
    proof (rule less.hyps)
      show "dl - now (client (after_poll self)) < dl - now (client self)"
        using again by simp
      show "timeout_at (client (after_poll self)) = Some dl" using less.prems(1) by simp
      show "now (client (after_poll self)) < dl" using again by simp
      show "\<forall>i. now (client (after_poll self)) + (\<Sum>j\<le>i. next_latency (after_poll self) j)
               + 100 * i < dl \<longrightarrow>
             (\<exists>st. next_status (after_poll self) i = Some st \<and> gSTA st \<noteq> ACTIVATED)"
        using less.prems(3) by (rule not_activated_in_time_after_poll)
    qed
    then show ?thesis unfolding step .
  qed
qed

lemma sleep_fields:
  assumes "asyncio_sleep ms self = (r, s)"
  shows "timeout_at (client s) = timeout_at (client self)"
    and "r = Inr u \<Longrightarrow> timeout_at (client self) = Some dl \<Longrightarrow>
         now (client s) = now (client self) + ms \<and> now (client s) < dl"
proof -
  have s: "s = snd (asyncio_sleep ms self)" and r: "r = fst (asyncio_sleep ms self)"
    using assms by simp_all
  show "timeout_at (client s) = timeout_at (client self)"
    unfolding s by (simp add: asyncio_sleep_def)
  show "r = Inr u \<Longrightarrow> timeout_at (client self) = Some dl \<Longrightarrow>
         now (client s) = now (client self) + ms \<and> now (client s) < dl"
    unfolding s r by (auto simp add: asyncio_sleep_def suspend_def split: if_splits)
qed

lemma activation_loop_returns:
  assumes "timeout_at (client self) = Some dl"
  shows "\<exists>y. activation_loop self = Some y"
  using assms
proof (induction "dl - now (client self)" arbitrary: self rule: less_induct)
  case less
  obtain r s where e: "read_gripper_status self = (r, s)" by (cases "read_gripper_status self")
  note f = read_gripper_status_fields [OF e]
  show ?case
  proof (cases r)
    case (Inl err)
    then show ?thesis by (subst activation_loop.simps) (simp add: e)
  next
    case (Inr st)
    obtain r' s' where e': "asyncio_sleep 100 s = (r', s')" by (cases "asyncio_sleep 100 s")
    note f' = sleep_fields [OF e']
    show ?thesis
    proof (cases "gSTA st = ACTIVATED")
      case True
      then show ?thesis by (subst activation_loop.simps) (simp add: e Inr)
    next
      case False
      show ?thesis
      proof (cases r')
        case (Inl err)
        then show ?thesis
          by (subst activation_loop.simps) (simp add: e \<open>r = Inr st\<close> False e')
      next
        case (Inr u)
        have ts: "timeout_at (client s) = Some dl" using f(1) less.prems by simp
        have t': "now (client s') = now (client s) + 100 \<and> now (client s') < dl"
          using f'(2) [OF Inr ts] .
        have "\<exists>y. activation_loop s' = Some y"
        proof (rule less.hyps)
          show "dl - now (client s') < dl - now (client self)"
            using t' f(2) by linarith
          show "timeout_at (client s') = Some dl" using f'(1) ts by simp
        qed
        then show ?thesis
          by (subst activation_loop.simps) (simp add: e \<open>r = Inr st\<close> False e' Inr)
      qed
    qed
  qed
qed

lemma under_deadline_fields [simp]:
  "timeout_at (client (under_deadline self)) = Some (now (client self) + 5000)"
  "now (client (under_deadline self)) = now (client self)"
  "reads (client (under_deadline self)) = reads (client self)"
  "writes (client (under_deadline self)) = writes (client self)"
  "next_status (under_deadline self) i = next_status self i"
  "next_latency (under_deadline self) i = next_latency self i"
  by (simp_all add: under_deadline_def next_status_def next_latency_def)

lemma wait_for_activation_unfold:
  assumes "timeout_at (client self) = None"
  shows "wait_for_activation self =
     (case activation_loop (under_deadline self) of
        None \<Rightarrow> None
      | Some (r, s) \<Rightarrow>
          Some (if r = Inl CancelledError \<and> now (client self) + 5000 \<le> now (client s)
                then Inl TimeoutError else r,
                s\<lparr>client := (client s)\<lparr>timeout_at := None\<rparr>\<rparr>))"
  using assms by (simp add: wait_for_activation_def Let_def under_deadline_def)

lemma wait_for_activation_returns: "\<exists>y. wait_for_activation self = Some y"
proof -
  let ?eff = "case timeout_at (client self) of None \<Rightarrow> now (client self) + 5000
              | Some d \<Rightarrow> min d (now (client self) + 5000)"
  let ?g = "self\<lparr>client := (client self)\<lparr>timeout_at := Some ?eff\<rparr>\<rparr>"
  have "timeout_at (client ?g) = Some ?eff" by simp
  then obtain y where "activation_loop ?g = Some y"
    using activation_loop_returns by blast
  then show ?thesis
    by (cases y) (simp add: wait_for_activation_def Let_def)
qed

lemma wait_for_activation_succeeds:
  assumes "timeout_at (client self) = None"
    and "\<forall>i<k. \<exists>st. next_status self i = Some st \<and> gSTA st \<noteq> ACTIVATED"
    and "next_status self k = Some st" "gSTA st = ACTIVATED"
    and "(\<Sum>i\<le>k. next_latency self i) + 100 * k < 5000"
  shows "\<exists>s. wait_for_activation self = Some (Inr (), s)
            \<and> length (reads (client s)) = length (reads (client self)) + k + 1
            \<and> now (client s) = now (client self) + (\<Sum>i\<le>k. next_latency self i) + 100 * k
            \<and> timeout_at (client s) = None
            \<and> writes (client s) = writes (client self)"
proof -
  have "\<exists>s. activation_loop (under_deadline self) = Some (Inr (), s)
            \<and> length (reads (client s)) = length (reads (client (under_deadline self))) + k + 1
            \<and> now (client s) = now (client (under_deadline self))
                + (\<Sum>i\<le>k. next_latency (under_deadline self) i) + 100 * k
            \<and> timeout_at (client s) = Some (now (client self) + 5000)
            \<and> writes (client s) = writes (client (under_deadline self))"
  proof (rule activation_loop_succeeds)
    show "timeout_at (client (under_deadline self)) = Some (now (client self) + 5000)" by simp
    show "\<forall>i<k. \<exists>st. next_status (under_deadline self) i = Some st \<and> gSTA st \<noteq> ACTIVATED"
      using assms(2) by simp
    show "next_status (under_deadline self) k = Some st" using assms(3) by simp
    show "gSTA st = ACTIVATED" by (rule assms(4))
    show "now (client (under_deadline self)) + (\<Sum>i\<le>k. next_latency (under_deadline self) i)
            + 100 * k < now (client self) + 5000"
      using assms(5) by simp
  qed
  then obtain s where s: "activation_loop (under_deadline self) = Some (Inr (), s)"
    "length (reads (client s)) = length (reads (client self)) + k + 1"
    "now (client s) = now (client self) + (\<Sum>i\<le>k. next_latency self i) + 100 * k"
    "writes (client s) = writes (client self)"
    by auto
  show ?thesis
    by (rule exI [of _ "s\<lparr>client := (client s)\<lparr>timeout_at := None\<rparr>\<rparr>"])
       (simp add: wait_for_activation_unfold [OF assms(1)] s)
qed

lemma wait_for_activation_times_out:
  assumes "timeout_at (client self) = None"
    and "\<forall>i. (\<Sum>j\<le>i. next_latency self j) + 100 * i < 5000 \<longrightarrow>
             (\<exists>st. next_status self i = Some st \<and> gSTA st \<noteq> ACTIVATED)"
  shows "\<exists>s. wait_for_activation self = Some (Inl TimeoutError, s)
            \<and> now (client s) = now (client self) + 5000
            \<and> timeout_at (client s) = None"
proof -
  have "\<exists>s. activation_loop (under_deadline self) = Some (Inl CancelledError, s)
            \<and> now (client s) = now (client self) + 5000
            \<and> timeout_at (client s) = Some (now (client self) + 5000)"
  proof (rule activation_loop_times_out)
    show "timeout_at (client (under_deadline self)) = Some (now (client self) + 5000)" by simp
    show "now (client (under_deadline self)) < now (client self) + 5000" by simp
    show "\<forall>i. now (client (under_deadline self))
                + (\<Sum>j\<le>i. next_latency (under_deadline self) j) + 100 * i
                < now (client self) + 5000 \<longrightarrow>
             (\<exists>st. next_status (under_deadline self) i = Some st \<and> gSTA st \<noteq> ACTIVATED)"
      using assms(2) by simp
  qed
  then obtain s where s: "activation_loop (under_deadline self) = Some (Inl CancelledError, s)"
    "now (client s) = now (client self) + 5000"
    by auto
  show ?thesis
    by (rule exI [of _ "s\<lparr>client := (client s)\<lparr>timeout_at := None\<rparr>\<rparr>"])
       (simp add: wait_for_activation_unfold [OF assms(1)] s)
qed

lemma wait_for_activation_timeout_only_at_deadline:
  assumes "wait_for_activation self = Some (Inl TimeoutError, s)"
  shows "now (client self) + 5000 \<le> now (client s)"
proof -
  let ?eff = "case timeout_at (client self) of None \<Rightarrow> now (client self) + 5000
              | Some d \<Rightarrow> min d (now (client self) + 5000)"
  let ?g = "self\<lparr>client := (client self)\<lparr>timeout_at := Some ?eff\<rparr>\<rparr>"
  from assms obtain r s0 where loop: "activation_loop ?g = Some (r, s0)"
    and res: "(if r = Inl CancelledError \<and> now (client self) + 5000 \<le> now (client s0)
               then Inl TimeoutError else r) = Inl TimeoutError"
    and s: "s = s0\<lparr>client := (client s0)\<lparr>timeout_at := timeout_at (client self)\<rparr>\<rparr>"
    by (auto simp add: wait_for_activation_def Let_def split: option.splits prod.splits)
  have "r \<noteq> Inl TimeoutError"
    using activation_loop_not_timeout [OF loop] by simp
  with res have "now (client self) + 5000 \<le> now (client s0)"
    by (auto split: if_splits)
  then show ?thesis unfolding s by simp
qed

text \<open>
  C3. \<open>wait_for_activation\<close> always returns. Called with no enclosing timeout, it polls
  the status with a sleep of 100 ms after each read that does not report ACTIVATED and
  returns normally at the first read that does, provided that read completes before five
  seconds have passed: after \<open>k + 1\<close> reads and \<open>k\<close> sleeps when the first \<open>k\<close> reads
  report other activation states (three reads and 200 ms for ACTIVATING, ACTIVATING,
  ACTIVATED on a stub that answers at once). When every read that completes before the five
  seconds have passed reports an activation state other than ACTIVATED, it fails with
  \<open>TimeoutError\<close> exactly five seconds after the call, whatever the device would
  have answered later: this covers the device that never answers in time, the device
  that is activated too late and the device that is never activated. It never fails with
  \<open>TimeoutError\<close> earlier than that. No other operation of the session results in
  \<open>TimeoutError\<close>.
\<close>

theorem wait_for_activation_deadline:
  "(\<exists>y. wait_for_activation self = Some y)
   \<and> (timeout_at (client self) = None \<and>
      (\<forall>i<k. \<exists>st. next_status self i = Some st \<and> gSTA st \<noteq> ACTIVATED) \<and>
      (\<exists>st. next_status self k = Some st \<and> gSTA st = ACTIVATED) \<and>
      (\<Sum>i\<le>k. next_latency self i) + 100 * k < 5000 \<longrightarrow>
        (\<exists>s. wait_for_activation self = Some (Inr (), s)
           \<and> length (reads (client s)) = length (reads (client self)) + k + 1
           \<and> now (client s) = now (client self) + (\<Sum>i\<le>k. next_latency self i) + 100 * k))
   \<and> (timeout_at (client self) = None \<and>
      (\<forall>i. (\<Sum>j\<le>i. next_latency self j) + 100 * i < 5000 \<longrightarrow>
           (\<exists>st. next_status self i = Some st \<and> gSTA st \<noteq> ACTIVATED)) \<longrightarrow>
        (\<exists>s. wait_for_activation self = Some (Inl TimeoutError, s)
           \<and> now (client s) = now (client self) + 5000))
   \<and> (\<forall>s. wait_for_activation self = Some (Inl TimeoutError, s) \<longrightarrow>
          now (client self) + 5000 \<le> now (client s))
   \<and> fst (read_gripper_status self) \<noteq> Inl TimeoutError
   \<and> fst (read_fault_position self) \<noteq> Inl TimeoutError
   \<and> fst (read_speed_force self) \<noteq> Inl TimeoutError
   \<and> fst (read_voltage_temperature self) \<noteq> Inl TimeoutError
   \<and> fst (read_software_version self) \<noteq> Inl TimeoutError
   \<and> fst (write_control_register self control) \<noteq> Inl TimeoutError
   \<and> fst (clear_control_register self) \<noteq> Inl TimeoutError
   \<and> fst (activate self) \<noteq> Inl TimeoutError
   \<and> fst (stop self) \<noteq> Inl TimeoutError
   \<and> fst (execute_move self) \<noteq> Inl TimeoutError
   \<and> fst (set_target_position self pos) \<noteq> Inl TimeoutError
   \<and> fst (move_to_position self pos) \<noteq> Inl TimeoutError
   \<and> fst (set_speed_force self spd frc) \<noteq> Inl TimeoutError
   \<and> fst (execute_control_movement self m) \<noteq> Inl TimeoutError
   \<and> (\<forall>s. wait_for_move self \<noteq> Some (Inl TimeoutError, s))
   \<and> address_setter self v \<noteq> Inl TimeoutError"
proof -
  have total: "\<exists>y. wait_for_activation self = Some y"
    by (rule wait_for_activation_returns)
  have ok: "timeout_at (client self) = None \<and>
      (\<forall>i<k. \<exists>st. next_status self i = Some st \<and> gSTA st \<noteq> ACTIVATED) \<and>
      (\<exists>st. next_status self k = Some st \<and> gSTA st = ACTIVATED) \<and>
      (\<Sum>i\<le>k. next_latency self i) + 100 * k < 5000 \<longrightarrow>
        (\<exists>s. wait_for_activation self = Some (Inr (), s)
           \<and> length (reads (client s)) = length (reads (client self)) + k + 1
           \<and> now (client s) = now (client self) + (\<Sum>i\<le>k. next_latency self i) + 100 * k)"
  proof
    assume h: "timeout_at (client self) = None \<and>
      (\<forall>i<k. \<exists>st. next_status self i = Some st \<and> gSTA st \<noteq> ACTIVATED) \<and>
      (\<exists>st. next_status self k = Some st \<and> gSTA st = ACTIVATED) \<and>
      (\<Sum>i\<le>k. next_latency self i) + 100 * k < 5000"
    then obtain st where st: "next_status self k = Some st" "gSTA st = ACTIVATED" by blast
    from h have a: "timeout_at (client self) = None"
      and b: "\<forall>i<k. \<exists>st. next_status self i = Some st \<and> gSTA st \<noteq> ACTIVATED"
      and c: "(\<Sum>i\<le>k. next_latency self i) + 100 * k < 5000"
      by blast+
    from wait_for_activation_succeeds [OF a b st c]
    show "\<exists>s. wait_for_activation self = Some (Inr (), s)
           \<and> length (reads (client s)) = length (reads (client self)) + k + 1
           \<and> now (client s) = now (client self) + (\<Sum>i\<le>k. next_latency self i) + 100 * k"
      by blast
  qed
  have late: "timeout_at (client self) = None \<and>
      (\<forall>i. (\<Sum>j\<le>i. next_latency self j) + 100 * i < 5000 \<longrightarrow>
           (\<exists>st. next_status self i = Some st \<and> gSTA st \<noteq> ACTIVATED)) \<longrightarrow>
        (\<exists>s. wait_for_activation self = Some (Inl TimeoutError, s)
           \<and> now (client s) = now (client self) + 5000)"
    using wait_for_activation_times_out [of self] by blast
  have only: "\<forall>s. wait_for_activation self = Some (Inl TimeoutError, s) \<longrightarrow>
          now (client self) + 5000 \<le> now (client s)"
    using wait_for_activation_timeout_only_at_deadline [of self] by blast
  have move: "\<forall>s. wait_for_move self \<noteq> Some (Inl TimeoutError, s)"
    using wait_for_move_not_timeout [of self] by fastforce
  have setter: "address_setter self v \<noteq> Inl TimeoutError"
    by (simp add: address_setter_def)
  show ?thesis
    by (intro conjI total ok late only move setter
        read_gripper_status_not_timeout read_fault_position_not_timeout
        read_speed_force_not_timeout read_voltage_temperature_not_timeout
        read_software_version_not_timeout write_control_register_not_timeout
        simple_writes_not_timeout move_to_position_not_timeout
        execute_control_movement_not_timeout)
qed

theorem wait_for_activation_deadline_witness:
  "(\<exists>s. wait_for_activation (HomwingGripper_init (stub_client activating_twice) 9) = Some (Inr (), s)
        \<and> length (reads (client s)) = 3 \<and> now (client s) = 200)
   \<and> (\<exists>s. wait_for_activation (HomwingGripper_init (stub_client never_activated) 9)
            = Some (Inl TimeoutError, s)
        \<and> now (client s) = 5000 \<and> 5000 \<le> now (client s))
   \<and> (\<exists>s. wait_for_activation (HomwingGripper_init (stub_client late_activating) 9)
            = Some (Inl TimeoutError, s) \<and> now (client s) = 5000)
   \<and> (\<exists>s. wait_for_activation (HomwingGripper_init (stub_client slow_device) 9)
            = Some (Inl TimeoutError, s) \<and> now (client s) = 5000)"
proof -
  let ?g1 = "HomwingGripper_init (stub_client activating_twice) 9"
  let ?g2 = "HomwingGripper_init (stub_client never_activated) 9"
  let ?g3 = "HomwingGripper_init (stub_client late_activating) 9"
  let ?g4 = "HomwingGripper_init (stub_client slow_device) 9"
  have a: "timeout_at (client ?g1) = None \<and>
      (\<forall>i<2. \<exists>st. next_status ?g1 i = Some st \<and> gSTA st \<noteq> ACTIVATED) \<and>
      (\<exists>st. next_status ?g1 2 = Some st \<and> gSTA st = ACTIVATED) \<and>
      (\<Sum>i\<le>2. next_latency ?g1 i) + 100 * 2 < 5000"
    by (simp add: next_status_def next_latency_def reported_status_def activating_twice_def
        status_0x10 status_0x30)
  have b: "timeout_at (client ?g2) = None \<and>
      (\<forall>i. (\<Sum>j\<le>i. next_latency ?g2 j) + 100 * i < 5000 \<longrightarrow>
           (\<exists>st. next_status ?g2 i = Some st \<and> gSTA st \<noteq> ACTIVATED))"
    by (simp add: next_status_def reported_status_def never_activated_def status_0x10)
  have d: "timeout_at (client ?g3) = None \<and>
      (\<forall>i. (\<Sum>j\<le>i. next_latency ?g3 j) + 100 * i < 5000 \<longrightarrow>
           (\<exists>st. next_status ?g3 i = Some st \<and> gSTA st \<noteq> ACTIVATED))"
    by (simp add: next_status_def next_latency_def reported_status_def late_activating_def
        status_0x10)
  have e: "timeout_at (client ?g4) = None \<and>
      (\<forall>i. (\<Sum>j\<le>i. next_latency ?g4 j) + 100 * i < 5000 \<longrightarrow>
           (\<exists>st. next_status ?g4 i = Some st \<and> gSTA st \<noteq> ACTIVATED))"
    by (simp add: next_latency_def slow_device_def)
  have c: "(\<Sum>i\<le>2. next_latency ?g1 i) = 0"
    by (simp add: next_latency_def activating_twice_def)
  have "\<exists>s. wait_for_activation ?g1 = Some (Inr (), s)
           \<and> length (reads (client s)) = length (reads (client ?g1)) + 2 + 1
           \<and> now (client s) = now (client ?g1) + (\<Sum>i\<le>2. next_latency ?g1 i) + 100 * 2"
    using wait_for_activation_deadline [of ?g1 2] a by blast
  then have one: "\<exists>s. wait_for_activation ?g1 = Some (Inr (), s)
        \<and> length (reads (client s)) = 3 \<and> now (client s) = 200"
    unfolding c by (simp add: numeral_3_eq_3)
  obtain s where s: "wait_for_activation ?g2 = Some (Inl TimeoutError, s)"
    "now (client s) = now (client ?g2) + 5000"
    using wait_for_activation_deadline [of ?g2 0] b by blast
  have "now (client ?g2) + 5000 \<le> now (client s)"
    using wait_for_activation_deadline [of ?g2 0] s(1) by blast
  with s have two: "\<exists>s. wait_for_activation ?g2 = Some (Inl TimeoutError, s)
        \<and> now (client s) = 5000 \<and> 5000 \<le> now (client s)"
    by simp
  have "\<exists>s. wait_for_activation ?g3 = Some (Inl TimeoutError, s)
        \<and> now (client s) = now (client ?g3) + 5000"
    using wait_for_activation_deadline [of ?g3 0] d by blast
  then have three: "\<exists>s. wait_for_activation ?g3 = Some (Inl TimeoutError, s)
        \<and> now (client s) = 5000"
    by simp
  have "\<exists>s. wait_for_activation ?g4 = Some (Inl TimeoutError, s)
        \<and> now (client s) = now (client ?g4) + 5000"
    using wait_for_activation_deadline [of ?g4 0] e by blast
  then have four: "\<exists>s. wait_for_activation ?g4 = Some (Inl TimeoutError, s)
        \<and> now (client s) = 5000"
    by simp
  show ?thesis using one two three four by blast
qed

end
